theory Spec2Isabelle
  imports
    Main
    "HOL-Library.Char_ord"
    "HOL-Library.List_Lexorder"
    "HOL-Library.Signed_Division"
begin

section \<open>produce\_lock\_info: data model\<close>

text \<open>
  The program keeps two global arrays of \<^verbatim>\<open>struct lock_info\<close>: \<^verbatim>\<open>lock_data\<close> (one
  element per call stack, filled by \<^verbatim>\<open>read_data\<close>) and \<^verbatim>\<open>cons_data\<close> (one element per
  \<^verbatim>\<open>called_from\<close> string, filled by \<^verbatim>\<open>organize_data\<close>).

  C strings are modelled as \<open>string\<close> without the terminating NUL. The \<^verbatim>\<open>long data[8]\<close>
  array is an \<open>int list\<close> of length 8. Values are mathematical integers: signed overflow of
  \<^verbatim>\<open>long\<close> is undefined in C and is outside this model. A consolidated element has
  \<^verbatim>\<open>stack == NULL\<close> (it is zeroed and only \<^verbatim>\<open>called_from\<close> is set); the field is never
  read there and is the empty string in the model.
\<close>

record lock_info =
  stack :: string
  called_from :: string
  data :: "int list"

definition ACQ_DATA_HOLD_AVG :: nat where "ACQ_DATA_HOLD_AVG = 0"
definition ACQ_DATA_HOLD_MAX :: nat where "ACQ_DATA_HOLD_MAX = 1"
definition ACQ_DATA_HOLD_COUNT :: nat where "ACQ_DATA_HOLD_COUNT = 2"
definition ACQ_DATA_TOTAL_TIME :: nat where "ACQ_DATA_TOTAL_TIME = 3"
definition HD_DATA_HOLD_AVG :: nat where "HD_DATA_HOLD_AVG = 4"
definition HD_DATA_HOLD_MAX :: nat where "HD_DATA_HOLD_MAX = 5"
definition HD_DATA_HOLD_COUNT :: nat where "HD_DATA_HOLD_COUNT = 6"
definition HD_DATA_TOTAL_TIME :: nat where "HD_DATA_TOTAL_TIME = 7"

definition ACQS_SPENT :: int where "ACQS_SPENT = 6"

text \<open>
  Every way the process can stop other than by returning from \<^verbatim>\<open>main\<close>.
  \<open>Read_past_eof\<close> marks a modelling boundary: \<^verbatim>\<open>read_data\<close> ignores the result of
  \<^verbatim>\<open>fgets\<close>, so at end of file it goes on with the stale buffer; what happens from there
  is not modelled, and no theorem below draws a conclusion from that outcome.
\<close>

datatype error =
    Malformed_line string  \<comment> \<open>\<^verbatim>\<open>fprintf(stderr, "malformed line: %s\n", buffer); exit(EXIT_FAILURE)\<close>\<close>
  | Cannot_open            \<comment> \<open>\<^verbatim>\<open>perror(file); exit(EXIT_FAILURE)\<close>\<close>
  | Divide_by_zero         \<comment> \<open>integer division by zero (a trap)\<close>
  | Null_dereference       \<comment> \<open>read through a NULL pointer\<close>
  | Read_past_eof

section \<open>Library functions\<close>

text \<open>
  \<^verbatim>\<open>strcmp\<close> compares bytes as \<^verbatim>\<open>unsigned char\<close>, a proper prefix being smaller: the
  lexicographic order on \<open>string\<close> over the byte order of \<open>char\<close>. Only the sign of the
  result is used by the program.
\<close>

definition strcmp :: "string \<Rightarrow> string \<Rightarrow> int" where
  "strcmp a b = (if a < b then - 1 else if a = b then 0 else 1)"

text \<open>
  \<^verbatim>\<open>qsort\<close> with a three-way comparator. C leaves the order of elements that compare equal
  unspecified; the model is an insertion sort, which keeps them in their input order.
\<close>

fun insert_by :: "('a \<Rightarrow> 'a \<Rightarrow> int) \<Rightarrow> 'a \<Rightarrow> 'a list \<Rightarrow> 'a list" where
  "insert_by cmp x [] = [x]"
| "insert_by cmp x (y # ys) = (if cmp x y \<le> 0 then x # y # ys else y # insert_by cmp x ys)"

definition qsort :: "('a \<Rightarrow> 'a \<Rightarrow> int) \<Rightarrow> 'a list \<Rightarrow> 'a list" where
  "qsort cmp xs = foldr (insert_by cmp) xs []"

text \<open>
  \<^verbatim>\<open>bsearch\<close> returns a member that compares equal to the key, or NULL when there is none;
  the array has to be sorted with respect to the comparator. The model returns the index of
  the first such member. On the arrays of this program (sorted, no two members with the same
  key) that is the member \<^verbatim>\<open>bsearch\<close> finds. A search over zero members finds nothing.
\<close>

fun bsearch :: "('k \<Rightarrow> 'a \<Rightarrow> int) \<Rightarrow> 'k \<Rightarrow> 'a list \<Rightarrow> nat option" where
  "bsearch cmp key [] = None"
| "bsearch cmp key (x # xs) =
     (if cmp key x = 0 then Some 0 else map_option Suc (bsearch cmp key xs))"

text \<open>C's \<^verbatim>\<open>/\<close> on \<^verbatim>\<open>long\<close>: truncation toward zero, and a trap when the divisor is zero.\<close>

definition ldiv :: "int \<Rightarrow> int \<Rightarrow> error + int" where
  "ldiv a b = (if b = 0 then Inl Divide_by_zero else Inr (a sdiv b))"

section \<open>Comparison routines\<close>

definition locate_caller :: "string \<Rightarrow> lock_info \<Rightarrow> int" where
  "locate_caller caller li = strcmp caller (called_from li)"

definition locate_stack :: "string \<Rightarrow> lock_info \<Rightarrow> int" where
  "locate_stack stk li = strcmp stk (stack li)"

definition sort_func :: "lock_info \<Rightarrow> lock_info \<Rightarrow> int" where
  "sort_func l1 l2 = strcmp (called_from l1) (called_from l2)"

definition sort_stack :: "lock_info \<Rightarrow> lock_info \<Rightarrow> int" where
  "sort_stack l1 l2 = strcmp (stack l1) (stack l2)"

text \<open>The eight report comparators differ only in the \<^verbatim>\<open>data\<close> index they look at.\<close>

definition sort_desc :: "nat \<Rightarrow> lock_info \<Rightarrow> lock_info \<Rightarrow> int" where
  "sort_desc i l1 l2 =
     (if data l1 ! i < data l2 ! i then 1
      else if data l1 ! i > data l2 ! i then - 1
      else 0)"

definition sort_aq_spin :: "lock_info \<Rightarrow> lock_info \<Rightarrow> int" where
  "sort_aq_spin = sort_desc ACQ_DATA_TOTAL_TIME"

definition sort_aq_average :: "lock_info \<Rightarrow> lock_info \<Rightarrow> int" where
  "sort_aq_average = sort_desc ACQ_DATA_HOLD_AVG"

definition sort_aq_count :: "lock_info \<Rightarrow> lock_info \<Rightarrow> int" where
  "sort_aq_count = sort_desc ACQ_DATA_HOLD_COUNT"

definition sort_aq_max :: "lock_info \<Rightarrow> lock_info \<Rightarrow> int" where
  "sort_aq_max = sort_desc ACQ_DATA_HOLD_MAX"

definition sort_hold_avg :: "lock_info \<Rightarrow> lock_info \<Rightarrow> int" where
  "sort_hold_avg = sort_desc HD_DATA_HOLD_AVG"

definition sort_hold_count :: "lock_info \<Rightarrow> lock_info \<Rightarrow> int" where
  "sort_hold_count = sort_desc HD_DATA_HOLD_COUNT"

definition sort_hold_max :: "lock_info \<Rightarrow> lock_info \<Rightarrow> int" where
  "sort_hold_max = sort_desc HD_DATA_HOLD_MAX"

definition sort_hold_total :: "lock_info \<Rightarrow> lock_info \<Rightarrow> int" where
  "sort_hold_total = sort_desc HD_DATA_TOTAL_TIME"

section \<open>organize\_data: consolidation by called\_from\<close>

text \<open>
  The consolidated array and its element count are separate globals in the source
  (\<^verbatim>\<open>cons_data\<close>, \<^verbatim>\<open>number_cons_entries\<close>), and they are separate here: the first loop
  iteration allocates one element without counting it.
\<close>

record cons_store =
  cons_data :: "lock_info list"
  number_cons_entries :: nat

definition no_cons :: cons_store where
  "no_cons = \<lparr>cons_data = [], number_cons_entries = 0\<rparr>"

text \<open>An element after \<^verbatim>\<open>bzero\<close> and \<^verbatim>\<open>entry_add->called_from = wptr->called_from\<close>.\<close>

definition new_cons_entry :: "string \<Rightarrow> lock_info" where
  "new_cons_entry cf = \<lparr>stack = [], called_from = cf, data = [0, 0, 0, 0, 0, 0, 0, 0]\<rparr>"

text \<open>
  The running average of one family (\<open>avg\<close> and \<open>cnt\<close> are its indexes): the weighted sum is
  taken first, the count is merged, and the division happens only under the source's test
  \<^verbatim>\<open>if (entry_add->data[...COUNT])\<close>.
\<close>

definition adjust_average :: "nat \<Rightarrow> nat \<Rightarrow> int list \<Rightarrow> int list \<Rightarrow> error + int list" where
  "adjust_average avg cnt e w =
     (let new_average = e ! avg * e ! cnt + w ! avg * w ! cnt;
          e1 = e[cnt := e ! cnt + w ! cnt]
      in if e1 ! cnt \<noteq> 0
         then (case ldiv new_average (e1 ! cnt) of
                 Inl err \<Rightarrow> Inl err
               | Inr q \<Rightarrow> Inr (e1[avg := q]))
         else Inr e1)"

definition adjust_max :: "nat \<Rightarrow> int list \<Rightarrow> int list \<Rightarrow> int list" where
  "adjust_max mx e w = (if e ! mx < w ! mx then e[mx := w ! mx] else e)"

text \<open>The part of the loop body after \<^verbatim>\<open>/* Now add things up. */\<close>.\<close>

definition add_things_up :: "int list \<Rightarrow> int list \<Rightarrow> error + int list" where
  "add_things_up e w =
     (case adjust_average ACQ_DATA_HOLD_AVG ACQ_DATA_HOLD_COUNT e w of
        Inl err \<Rightarrow> Inl err
      | Inr e1 \<Rightarrow>
          (case adjust_average HD_DATA_HOLD_AVG HD_DATA_HOLD_COUNT e1 w of
             Inl err \<Rightarrow> Inl err
           | Inr e2 \<Rightarrow>
               Inr (adjust_max HD_DATA_HOLD_MAX (adjust_max ACQ_DATA_HOLD_MAX e2 w) w)))"

text \<open>
  One iteration of the loop, for loop index \<open>count\<close> and element \<open>wptr\<close>. The first component
  computed is the store after the allocation together with the index \<^verbatim>\<open>entry_add\<close> points
  at. For \<open>count = 0\<close> one element is allocated and \<^verbatim>\<open>number_cons_entries\<close> is left as it
  is. Otherwise the first \<^verbatim>\<open>number_cons_entries\<close> elements are searched; when the key is
  absent the count is incremented, the array is resized to the new count (which keeps the
  elements below it) and the last element is zeroed and given the key.
\<close>

definition organize_step :: "nat \<Rightarrow> lock_info \<Rightarrow> cons_store \<Rightarrow> error + cons_store" where
  "organize_step count wptr cs =
     (let n = number_cons_entries cs;
          (cs1, entry_add) =
            (if count = 0
             then (cs\<lparr>cons_data := [new_cons_entry (called_from wptr)]\<rparr>, 0)
             else (case bsearch locate_caller (called_from wptr) (take n (cons_data cs)) of
                     Some i \<Rightarrow> (cs, i)
                   | None \<Rightarrow>
                       (\<lparr>cons_data = take n (cons_data cs) @ [new_cons_entry (called_from wptr)],
                         number_cons_entries = n + 1\<rparr>, n)))
      in case add_things_up (data (cons_data cs1 ! entry_add)) (data wptr) of
           Inl err \<Rightarrow> Inl err
         | Inr d \<Rightarrow>
             Inr (cs1\<lparr>cons_data :=
                        (cons_data cs1)[entry_add := (cons_data cs1 ! entry_add)\<lparr>data := d\<rparr>]\<rparr>))"

fun organize_loop :: "nat \<Rightarrow> lock_info list \<Rightarrow> cons_store \<Rightarrow> error + cons_store" where
  "organize_loop count [] cs = Inr cs"
| "organize_loop count (wptr # rest) cs =
     (case organize_step count wptr cs of
        Inl err \<Rightarrow> Inl err
      | Inr cs' \<Rightarrow> organize_loop (Suc count) rest cs')"

definition organize_data :: "lock_info list \<Rightarrow> error + cons_store" where
  "organize_data lock_data = organize_loop 0 (qsort sort_func lock_data) no_cons"

text \<open>The consolidated records the report step sees: the counted part of the array.\<close>

definition consolidated :: "cons_store \<Rightarrow> lock_info list" where
  "consolidated cs = take (number_cons_entries cs) (cons_data cs)"

section \<open>read\_data: parsing one section of the bpftrace output\<close>

definition isspace :: "char \<Rightarrow> bool" where
  "isspace c = (c = CHR '' '' \<or> (9 \<le> (of_char c :: nat) \<and> (of_char c :: nat) \<le> 13))"

definition isdigit :: "char \<Rightarrow> bool" where
  "isdigit c = (48 \<le> (of_char c :: nat) \<and> (of_char c :: nat) \<le> 57)"

fun digits_value :: "int \<Rightarrow> string \<Rightarrow> int" where
  "digits_value acc [] = acc"
| "digits_value acc (c # cs) =
     (if isdigit c then digits_value (10 * acc + (of_char c - 48)) cs else acc)"

text \<open>
  \<^verbatim>\<open>atoll\<close> (and \<^verbatim>\<open>atoi\<close>): leading white space is skipped, an optional sign is read,
  then decimal digits up to the first other character; no digits give 0. A value outside
  the range of the result type is undefined in C and outside the model.
\<close>

definition atoll :: "string \<Rightarrow> int" where
  "atoll s =
     (case dropWhile isspace s of
        [] \<Rightarrow> 0
      | c # r \<Rightarrow>
          if c = CHR ''-'' then - digits_value 0 r
          else if c = CHR ''+'' then digits_value 0 r
          else digits_value 0 (c # r))"

definition atoi :: "string \<Rightarrow> int" where
  "atoi s = atoll s"

text \<open>\<^verbatim>\<open>strchr\<close> and \<^verbatim>\<open>strrchr\<close>, as the offset of the character found (\<open>None\<close> is NULL).\<close>

definition strchr :: "string \<Rightarrow> char \<Rightarrow> nat option" where
  "strchr s c = (if c \<in> set s then Some (length (takeWhile (\<lambda>x. x \<noteq> c) s)) else None)"

definition strrchr :: "string \<Rightarrow> char \<Rightarrow> nat option" where
  "strrchr s c =
     (if c \<in> set s then Some (length s - Suc (length (takeWhile (\<lambda>x. x \<noteq> c) (rev s))))
      else None)"

text \<open>\<^verbatim>\<open>strstr(buffer, "[]") != NULL\<close>.\<close>

fun strstr_brackets :: "string \<Rightarrow> bool" where
  "strstr_brackets (a # b # cs) = ((a = CHR ''['' \<and> b = CHR '']'') \<or> strstr_brackets (b # cs))"
| "strstr_brackets _ = False"

text \<open>\<^verbatim>\<open>buffer[0] == c\<close>; \<^verbatim>\<open>buffer[0]\<close> of the empty string is NUL.\<close>

definition first_is :: "string \<Rightarrow> char \<Rightarrow> bool" where
  "first_is buffer c = (case buffer of [] \<Rightarrow> False | x # _ \<Rightarrow> x = c)"

definition remove_new_line :: "string \<Rightarrow> error + string" where
  "remove_new_line buffer =
     (case strchr buffer (CHR 0x0A) of
        Some i \<Rightarrow> Inr (take i buffer @ '' '')
      | None \<Rightarrow> Inl (Malformed_line buffer))"

text \<open>
  \<^verbatim>\<open>ptr = strrchr(buffer, ' '); ptr[0] = ':'; ptr[1] = '\0';\<close> The source does not test
  \<^verbatim>\<open>ptr\<close>.
\<close>

definition colon_at_last_space :: "string \<Rightarrow> error + string" where
  "colon_at_last_space buffer =
     (case strrchr buffer (CHR '' '') of
        Some i \<Rightarrow> Inr (take i buffer @ '':'')
      | None \<Rightarrow> Inl Null_dereference)"

text \<open>A new element after \<^verbatim>\<open>bzero\<close>, the two \<^verbatim>\<open>strdup\<close>s and \<^verbatim>\<open>data[index] = value\<close>.\<close>

definition new_lock_entry :: "nat \<Rightarrow> string \<Rightarrow> string \<Rightarrow> int \<Rightarrow> lock_info" where
  "new_lock_entry index stk fc v =
     \<lparr>stack = stk, called_from = fc, data = [0, 0, 0, 0, 0, 0, 0, 0][index := v]\<rparr>"

text \<open>
  The block under \<^verbatim>\<open>/* Add the entry. */\<close>. \<^verbatim>\<open>number_lock_entries\<close> is the length of
  the list. \<^verbatim>\<open>need_add_stack\<close> is 0 whenever the block is entered and is reset inside it,
  so it is a local of this definition only.
\<close>

definition add_the_entry :: "nat \<Rightarrow> string \<Rightarrow> string \<Rightarrow> int \<Rightarrow> lock_info list \<Rightarrow> lock_info list" where
  "add_the_entry index stk fc v ld =
     (if length ld = 0 then qsort sort_stack [new_lock_entry index stk fc v]
      else (case bsearch locate_stack stk ld of
              None \<Rightarrow> qsort sort_stack (ld @ [new_lock_entry index stk fc v])
            | Some i \<Rightarrow>
                ld[i := (ld ! i)\<lparr>data := (data (ld ! i))[index := data (ld ! i) ! index + v]\<rparr>]))"

text \<open>
  The state of the loop in \<^verbatim>\<open>read_data\<close>: the global array and the locals that live
  across iterations. \<^verbatim>\<open>stack_in\<close> and \<^verbatim>\<open>func_called\<close> are uninitialised on entry; they
  are written (with \<^verbatim>\<open>have_function == 0\<close>) before they are read.
\<close>

record read_state =
  lock_data :: "lock_info list"
  func_called :: string
  stack_in :: string
  depth :: int
  have_function :: bool

text \<open>
  The stream is the list of strings that successive \<^verbatim>\<open>fgets(buffer, 1024, fd)\<close> calls
  return: a line with its newline, or a piece without one (a line longer than 1023 bytes,
  or a last line that is not terminated). The result is the state at the \<^verbatim>\<open>break\<close> and
  the rest of the stream. When the second \<^verbatim>\<open>fgets\<close> of the \<^verbatim>\<open>have_function == 0\<close> branch
  meets the end of file, the buffer still holds the first line, whose newline is gone, so
  \<^verbatim>\<open>remove_new_line\<close> exits. Overflow of the fixed-size buffers \<^verbatim>\<open>stack_in\<close> and
  \<^verbatim>\<open>func_called\<close> is undefined behaviour and outside the model.
\<close>

fun read_data :: "nat \<Rightarrow> int \<Rightarrow> read_state \<Rightarrow> string list \<Rightarrow> error + (read_state \<times> string list)" where
  "read_data index sdepth st [] = Inl Read_past_eof"
| "read_data index sdepth st (buffer # fd) =
     (if first_is buffer (CHR ''='') then Inr (st, fd)
      else if strstr_brackets buffer then read_data index sdepth st fd
      else if first_is buffer (CHR ''@'')
      then read_data index sdepth (st\<lparr>have_function := False\<rparr>) fd
      else (case remove_new_line buffer of
          Inl err \<Rightarrow> Inl err
        | Inr line \<Rightarrow>
            if \<not> have_function st
            then (case fd of
                [] \<Rightarrow> Inl (Malformed_line line)
              | buffer2 # fd2 \<Rightarrow>
                  (case remove_new_line buffer2 of
                     Inl err \<Rightarrow> Inl err
                   | Inr line2 \<Rightarrow>
                       (case colon_at_last_space line2 of
                          Inl err \<Rightarrow> Inl err
                        | Inr fn \<Rightarrow>
                            read_data index sdepth
                              (st\<lparr>stack_in := line @ fn, func_called := fn,
                                  depth := 1, have_function := True\<rparr>) fd2)))
            else if first_is line (CHR '']'')
            then (case strchr line (CHR '':'') of
                None \<Rightarrow> Inl (Malformed_line line)
              | Some i \<Rightarrow>
                  read_data index sdepth
                    (st\<lparr>depth := 0,
                        lock_data :=
                          add_the_entry index (stack_in st) (func_called st)
                            (atoll (drop (Suc i) line)) (lock_data st)\<rparr>) fd)
            else if depth st < sdepth
            then (case colon_at_last_space line of
                Inl err \<Rightarrow> Inl err
              | Inr fn \<Rightarrow>
                  read_data index sdepth
                    (st\<lparr>stack_in := stack_in st @ line, depth := depth st + 1,
                        func_called := func_called st @ fn\<rparr>) fd)
            else read_data index sdepth (st\<lparr>stack_in := stack_in st @ line\<rparr>) fd))"

section \<open>lookup\_data: the six sections\<close>

definition fresh_locals :: "lock_info list \<Rightarrow> read_state" where
  "fresh_locals ld =
     \<lparr>lock_data = ld, func_called = [], stack_in = [], depth = 0, have_function = False\<rparr>"

text \<open>
  Each section is \<open>skip\<close> discarded \<^verbatim>\<open>fgets\<close> calls followed by \<^verbatim>\<open>read_data\<close> for one
  index; a discarded \<^verbatim>\<open>fgets\<close> at end of file reads nothing.
\<close>

fun read_sections :: "(nat \<times> nat) list \<Rightarrow> int \<Rightarrow> lock_info list \<Rightarrow> string list \<Rightarrow> error + lock_info list" where
  "read_sections [] sdepth ld fd = Inr ld"
| "read_sections ((skip, index) # later) sdepth ld fd =
     (case read_data index sdepth (fresh_locals ld) (drop skip fd) of
        Inl err \<Rightarrow> Inl err
      | Inr (st, fd') \<Rightarrow> read_sections later sdepth (lock_data st) fd')"

definition sections :: "(nat \<times> nat) list" where
  "sections =
     [(4, ACQ_DATA_HOLD_AVG), (2, ACQ_DATA_HOLD_MAX), (2, ACQ_DATA_HOLD_COUNT),
      (2, HD_DATA_HOLD_AVG), (2, HD_DATA_HOLD_MAX), (2, HD_DATA_HOLD_COUNT)]"

text \<open>The file is \<open>None\<close> when \<^verbatim>\<open>fopen\<close> fails. The store is empty at program start.\<close>

definition lookup_data :: "string list option \<Rightarrow> int \<Rightarrow> error + lock_info list" where
  "lookup_data file sdepth =
     (case file of
        None \<Rightarrow> Inl Cannot_open
      | Some fd \<Rightarrow> read_sections sections sdepth [] fd)"

section \<open>dump\_data: totals, sorting, filter and rows\<close>

text \<open>One data row of the report: the arguments of the second \<^verbatim>\<open>fprintf\<close>, and below it
  the lines printed for the other frames of \<^verbatim>\<open>called_from\<close>.\<close>

record row =
  row_caller :: string
  row_holds :: int
  row_hold_max :: int
  row_hold_avg :: int
  row_acqs :: int
  row_acq_max :: int
  row_acq_avg :: int
  row_frames :: "string list"

definition set_totals :: "lock_info \<Rightarrow> lock_info" where
  "set_totals e =
     e\<lparr>data :=
         (data e)
           [ACQ_DATA_TOTAL_TIME := data e ! ACQ_DATA_HOLD_AVG * data e ! ACQ_DATA_HOLD_COUNT,
            HD_DATA_TOTAL_TIME := data e ! HD_DATA_HOLD_AVG * data e ! HD_DATA_HOLD_COUNT]\<rparr>"

text \<open>The \<^verbatim>\<open>switch (sort_option)\<close>: every value other than 0 to 6 takes the last branch.\<close>

definition sort_routine :: "int \<Rightarrow> lock_info \<Rightarrow> lock_info \<Rightarrow> int" where
  "sort_routine sort_option =
     (if sort_option = 0 then sort_hold_count
      else if sort_option = 1 then sort_hold_max
      else if sort_option = 2 then sort_hold_avg
      else if sort_option = 3 then sort_hold_total
      else if sort_option = 4 then sort_aq_count
      else if sort_option = 5 then sort_aq_max
      else if sort_option = 6 then sort_aq_average
      else sort_aq_spin)"

text \<open>
  The name compared with the \<^verbatim>\<open>-C\<close> argument: the first frame (\<^verbatim>\<open>called_from\<close> cut at
  its first colon) without leading white space, cut at its first blank.
\<close>

definition first_frame :: "string \<Rightarrow> string" where
  "first_frame cf = (case strchr cf (CHR '':'') of Some i \<Rightarrow> take i cf | None \<Rightarrow> cf)"

definition filter_name :: "string \<Rightarrow> string" where
  "filter_name frame =
     (let ptr1 = dropWhile isspace frame
      in case strchr ptr1 (CHR '' '') of Some i \<Rightarrow> take i ptr1 | None \<Rightarrow> ptr1)"

text \<open>
  The inner \<^verbatim>\<open>while (ptr[0] != '\0')\<close> loop over the text after the first colon. When no
  colon is left, the rest is printed, \<^verbatim>\<open>ptr\<close> becomes NULL and the loop test reads
  through it.
\<close>

function frame_lines :: "string \<Rightarrow> string list option" where
  "frame_lines ptr =
     (if ptr = [] then Some []
      else (case strchr ptr (CHR '':'') of
              None \<Rightarrow> None
            | Some i \<Rightarrow> map_option ((#) (take i ptr)) (frame_lines (drop (Suc i) ptr))))"
  by pat_completeness auto
termination
  by (relation "measure length") auto

declare frame_lines.simps [simp del]

definition other_frames :: "string \<Rightarrow> string list option" where
  "other_frames cf =
     (case strchr cf (CHR '':'') of
        None \<Rightarrow> Some []
      | Some i \<Rightarrow> frame_lines (drop (Suc i) cf))"

text \<open>
  The second loop of \<^verbatim>\<open>dump_data\<close>, over the elements it is given. \<^verbatim>\<open>called_from\<close> is
  never NULL in \<^verbatim>\<open>cons_data\<close>, and \<^verbatim>\<open>stack_depth\<close> is 0 at the test of \<^verbatim>\<open>caller\<close>.
\<close>

fun dump_rows :: "string option \<Rightarrow> lock_info list \<Rightarrow> error + row list" where
  "dump_rows flt [] = Inr []"
| "dump_rows flt (e # es) =
     (if flt \<noteq> None \<and> strcmp (filter_name (first_frame (called_from e))) (the flt) \<noteq> 0
      then dump_rows flt es
      else (case other_frames (called_from e) of
              None \<Rightarrow> Inl Null_dereference
            | Some fs \<Rightarrow>
                (case dump_rows flt es of
                   Inl err \<Rightarrow> Inl err
                 | Inr rows \<Rightarrow>
                     Inr (\<lparr>row_caller = first_frame (called_from e),
                           row_holds = data e ! HD_DATA_HOLD_COUNT,
                           row_hold_max = data e ! HD_DATA_HOLD_MAX,
                           row_hold_avg = data e ! HD_DATA_HOLD_AVG,
                           row_acqs = data e ! ACQ_DATA_HOLD_COUNT,
                           row_acq_max = data e ! ACQ_DATA_HOLD_MAX,
                           row_acq_avg = data e ! ACQ_DATA_HOLD_AVG,
                           row_frames = fs\<rparr> # rows))))"

text \<open>
  The array after the totals loop and \<^verbatim>\<open>qsort\<close>; both work on the first
  \<^verbatim>\<open>number_cons_entries\<close> elements.
\<close>

definition sorted_store :: "int \<Rightarrow> cons_store \<Rightarrow> lock_info list" where
  "sorted_store sort_option cs =
     qsort (sort_routine sort_option)
       (map set_totals (take (number_cons_entries cs) (cons_data cs)))"

text \<open>
  \<^verbatim>\<open>if (numb_to_show < number_cons_entries) number_cons_entries = numb_to_show;\<close> compares an
  \<^verbatim>\<open>int\<close> with a \<^verbatim>\<open>size_t\<close>: the \<^verbatim>\<open>int\<close> is converted, and a negative one becomes a
  value above every array size, so the test is false for it.
\<close>

definition rows_to_show :: "int \<Rightarrow> nat \<Rightarrow> nat" where
  "rows_to_show numb_to_show n = (if 0 \<le> numb_to_show \<and> numb_to_show < int n then nat numb_to_show else n)"

text \<open>
  \<^verbatim>\<open>dump_data\<close> without its first argument: the stream the lines go to (the output file, or
  standard output when there is none or it cannot be opened) is not part of the model.
\<close>

definition dump_data :: "string option \<Rightarrow> int \<Rightarrow> int \<Rightarrow> cons_store \<Rightarrow> error + row list" where
  "dump_data flt sort_option numb_to_show cs =
     dump_rows flt
       (take (rows_to_show numb_to_show (number_cons_entries cs)) (sorted_store sort_option cs))"

section \<open>main\<close>

record config =
  opt_file :: "string option"
  opt_stack_depth :: int
  opt_command :: "string option"
  opt_caller :: "string option"
  opt_output_file :: "string option"
  opt_sort_on :: int
  opt_interval :: int
  opt_number_to_show :: int
  messages :: "string list"  \<comment> \<open>lines written to standard error so far\<close>

definition initial_config :: config where
  "initial_config =
     \<lparr>opt_file = None, opt_stack_depth = 1, opt_command = None, opt_caller = None,
      opt_output_file = None, opt_sort_on = ACQS_SPENT, opt_interval = 0,
      opt_number_to_show = 999999, messages = []\<rparr>"

text \<open>
  The \<^verbatim>\<open>switch\<close> on one \<^verbatim>\<open>getopt\<close> result (the option letter and \<^verbatim>\<open>optarg\<close>).
  \<open>None\<close> is the call of \<^verbatim>\<open>usage\<close>, which ends the process.
\<close>

definition handle_option :: "char \<Rightarrow> string \<Rightarrow> config \<Rightarrow> config option" where
  "handle_option letter optarg cfg =
     (if letter = CHR ''C'' then Some (cfg\<lparr>opt_caller := Some optarg\<rparr>)
      else if letter = CHR ''c'' then Some (cfg\<lparr>opt_command := Some optarg\<rparr>)
      else if letter = CHR ''f'' then Some (cfg\<lparr>opt_file := Some optarg\<rparr>)
      else if letter = CHR ''i''
      then Some (cfg\<lparr>messages := messages cfg @ [''Currently interval is not supported, hangs'']\<rparr>)
      else if letter = CHR ''n'' then Some (cfg\<lparr>opt_number_to_show := atoi optarg\<rparr>)
      else if letter = CHR ''o'' then Some (cfg\<lparr>opt_output_file := Some optarg\<rparr>)
      else if letter = CHR ''S''
      then (let sort_on = atoi optarg
            in if sort_on > ACQS_SPENT
               then Some (cfg\<lparr>opt_sort_on := ACQS_SPENT,
                             messages := messages cfg @ [''Invalid sort option, defaulting to option 6'']\<rparr>)
               else Some (cfg\<lparr>opt_sort_on := sort_on\<rparr>))
      else if letter = CHR ''s'' then Some (cfg\<lparr>opt_stack_depth := atoi optarg\<rparr>)
      else None)"

text \<open>The \<^verbatim>\<open>while\<close> loop over the options; \<open>Inl\<close> is the process ended by \<^verbatim>\<open>usage\<close>.\<close>

fun getopt_loop :: "(char \<times> string) list \<Rightarrow> config \<Rightarrow> config + config" where
  "getopt_loop [] cfg = Inr cfg"
| "getopt_loop ((letter, optarg) # args) cfg =
     (case handle_option letter optarg cfg of
        None \<Rightarrow> Inl cfg
      | Some cfg' \<Rightarrow> getopt_loop args cfg')"

datatype exit_status = EXIT_SUCCESS | EXIT_FAILURE | Trapped | Not_modelled

datatype report =
    Nothing_written          \<comment> \<open>\<^verbatim>\<open>dump_data\<close> was not reached\<close>
  | Written "row list"       \<comment> \<open>the header line and these rows\<close>
  | Interrupted              \<comment> \<open>a trap inside \<^verbatim>\<open>dump_data\<close>, after the header line\<close>

record outcome =
  status :: exit_status
  stderr_lines :: "string list"
  report_out :: report

definition stopped :: "config \<Rightarrow> error \<Rightarrow> outcome" where
  "stopped cfg err =
     (case err of
        Malformed_line buffer \<Rightarrow>
          \<lparr>status = EXIT_FAILURE, stderr_lines = messages cfg @ [''malformed line: '' @ buffer],
           report_out = Nothing_written\<rparr>
      | Cannot_open \<Rightarrow>
          \<lparr>status = EXIT_FAILURE, stderr_lines = messages cfg @ [''perror''],
           report_out = Nothing_written\<rparr>
      | Read_past_eof \<Rightarrow>
          \<lparr>status = Not_modelled, stderr_lines = messages cfg, report_out = Nothing_written\<rparr>
      | _ \<Rightarrow> \<lparr>status = Trapped, stderr_lines = messages cfg, report_out = Nothing_written\<rparr>)"

text \<open>
  \<^verbatim>\<open>main\<close>, given the \<^verbatim>\<open>getopt\<close> results in order and the contents of the data file as
  they are once the optional command has run (\<^verbatim>\<open>obtain_run_data\<close> starts processes and is
  not modelled). \<^verbatim>\<open>interval\<close> is never changed from 0, so the three steps always run.
\<close>

definition main :: "(char \<times> string) list \<Rightarrow> string list option \<Rightarrow> outcome" where
  "main args fd =
     (case getopt_loop args initial_config of
        Inl cfg \<Rightarrow>
          \<lparr>status = EXIT_SUCCESS, stderr_lines = messages cfg @ [''usage''],
           report_out = Nothing_written\<rparr>
      | Inr cfg \<Rightarrow>
          (case lookup_data fd (opt_stack_depth cfg) of
             Inl err \<Rightarrow> stopped cfg err
           | Inr ld \<Rightarrow>
               (case organize_data ld of
                  Inl err \<Rightarrow> stopped cfg err
                | Inr cs \<Rightarrow>
                    (case dump_data (opt_caller cfg) (opt_sort_on cfg) (opt_number_to_show cfg) cs of
                       Inl err \<Rightarrow>
                         \<lparr>status = Trapped, stderr_lines = messages cfg, report_out = Interrupted\<rparr>
                     | Inr rows \<Rightarrow>
                         \<lparr>status = EXIT_SUCCESS, stderr_lines = messages cfg,
                          report_out = Written rows\<rparr>))))"

section \<open>Notions used to state the properties\<close>

subsection \<open>The entries of the input\<close>

text \<open>
  The entries \<^verbatim>\<open>read_data\<close> meets in one section, in order, as the triples (stack
  signature, called-from key, value) it hands to the block that adds the entry, and the
  rest of the stream after the section. This is the loop of \<^verbatim>\<open>read_data\<close> with the
  store left out: the locals \<^verbatim>\<open>func_called\<close>, \<^verbatim>\<open>stack_in\<close>, \<^verbatim>\<open>depth\<close> and
  \<^verbatim>\<open>have_function\<close> evolve in the same way, and where \<^verbatim>\<open>read_data\<close> stops with an
  error the list ends. Lemma \<open>read_data_entries\<close> relates the two.
\<close>

fun section_entries ::
  "int \<Rightarrow> string \<Rightarrow> string \<Rightarrow> int \<Rightarrow> bool \<Rightarrow> string list \<Rightarrow>
   (string \<times> string \<times> int) list \<times> string list" where
  "section_entries sdepth fc si d hf [] = ([], [])"
| "section_entries sdepth fc si d hf (buffer # fd) =
     (if first_is buffer (CHR ''='') then ([], fd)
      else if strstr_brackets buffer then section_entries sdepth fc si d hf fd
      else if first_is buffer (CHR ''@'') then section_entries sdepth fc si d False fd
      else (case remove_new_line buffer of
          Inl err \<Rightarrow> ([], [])
        | Inr line \<Rightarrow>
            if \<not> hf
            then (case fd of
                [] \<Rightarrow> ([], [])
              | buffer2 # fd2 \<Rightarrow>
                  (case remove_new_line buffer2 of
                     Inl err \<Rightarrow> ([], [])
                   | Inr line2 \<Rightarrow>
                       (case colon_at_last_space line2 of
                          Inl err \<Rightarrow> ([], [])
                        | Inr fn \<Rightarrow> section_entries sdepth fn (line @ fn) 1 True fd2)))
            else if first_is line (CHR '']'')
            then (case strchr line (CHR '':'') of
                None \<Rightarrow> ([], [])
              | Some i \<Rightarrow>
                  (case section_entries sdepth fc si 0 hf fd of
                     (es, r) \<Rightarrow> ((si, fc, atoll (drop (Suc i) line)) # es, r)))
            else if d < sdepth
            then (case colon_at_last_space line of
                Inl err \<Rightarrow> ([], [])
              | Inr fn \<Rightarrow> section_entries sdepth (fc @ fn) (si @ line) (d + 1) hf fd)
            else section_entries sdepth fc (si @ line) d hf fd))"

text \<open>The entries of the whole file, each with the \<^verbatim>\<open>data\<close> index of its section.\<close>

fun file_entries ::
  "(nat \<times> nat) list \<Rightarrow> int \<Rightarrow> string list \<Rightarrow> (nat \<times> string \<times> string \<times> int) list" where
  "file_entries [] sdepth fd = []"
| "file_entries ((skip, index) # later) sdepth fd =
     (case section_entries sdepth [] [] 0 False (drop skip fd) of
        (es, fd') \<Rightarrow> map (Pair index) es @ file_entries later sdepth fd')"






text \<open>The entries added to a store one after the other.\<close>

definition add_all ::
  "(nat \<times> string \<times> string \<times> int) list \<Rightarrow> lock_info list \<Rightarrow> lock_info list" where
  "add_all es ld = foldl (\<lambda>ld (i, s, f, v). add_the_entry i s f v ld) ld es"

subsection \<open>The stack record store\<close>

text \<open>The record of a signature, and one of its metric fields (0 when there is no record).\<close>

definition record_for :: "lock_info list \<Rightarrow> string \<Rightarrow> lock_info option" where
  "record_for ld s = map_of (map (\<lambda>e. (stack e, e)) ld) s"

definition metric :: "lock_info list \<Rightarrow> string \<Rightarrow> nat \<Rightarrow> int" where
  "metric ld s j = (case record_for ld s of None \<Rightarrow> 0 | Some e \<Rightarrow> data e ! j)"

definition store_ok :: "lock_info list \<Rightarrow> bool" where
  "store_ok ld = (distinct (map stack ld) \<and> list_all (\<lambda>e. length (data e) = 8) ld)"

subsection \<open>Lines\<close>

text \<open>A line that gets past the three tests at the top of the loop of \<^verbatim>\<open>read_data\<close>.\<close>

definition data_line :: "string \<Rightarrow> bool" where
  "data_line buffer =
     (\<not> first_is buffer (CHR ''='') \<and> \<not> strstr_brackets buffer \<and> \<not> first_is buffer (CHR ''@''))"

text \<open>Text in which \<^verbatim>\<open>atoll\<close> finds no digit: after the white space and an optional sign,
  the text ends or goes on with something that is not a digit.\<close>

definition no_number :: "string \<Rightarrow> bool" where
  "no_number s =
     (case dropWhile isspace s of
        [] \<Rightarrow> True
      | c # r \<Rightarrow>
          if c = CHR ''-'' \<or> c = CHR ''+''
          then (case r of [] \<Rightarrow> True | d # _ \<Rightarrow> \<not> isdigit d)
          else \<not> isdigit c)"

subsection \<open>Rows\<close>

text \<open>A record passes the \<^verbatim>\<open>-C\<close> filter; the row printed for a record; a
  \<^verbatim>\<open>called_from\<close> string in which every frame is closed by its colon, as \<^verbatim>\<open>read_data\<close>
  builds them.\<close>

definition kept :: "string option \<Rightarrow> lock_info \<Rightarrow> bool" where
  "kept flt e =
     (case flt of
        None \<Rightarrow> True
      | Some name \<Rightarrow> filter_name (first_frame (called_from e)) = name)"

definition row_of :: "lock_info \<Rightarrow> row" where
  "row_of e =
     \<lparr>row_caller = first_frame (called_from e),
      row_holds = data e ! HD_DATA_HOLD_COUNT,
      row_hold_max = data e ! HD_DATA_HOLD_MAX,
      row_hold_avg = data e ! HD_DATA_HOLD_AVG,
      row_acqs = data e ! ACQ_DATA_HOLD_COUNT,
      row_acq_max = data e ! ACQ_DATA_HOLD_MAX,
      row_acq_avg = data e ! ACQ_DATA_HOLD_AVG,
      row_frames = the (other_frames (called_from e))\<rparr>"

definition frames_closed :: "string \<Rightarrow> bool" where
  "frames_closed cf = (CHR '':'' \<in> set cf \<longrightarrow> last cf = CHR '':'')"

subsection \<open>The lines the parser is at\<close>

text \<open>
  One pass through the body of the loop of \<^verbatim>\<open>read_data\<close>, for the line \<open>buffer\<close> just read
  and the rest \<open>fd\<close> of the stream: the loop is left (\<^verbatim>\<open>break\<close>), or goes to its next pass
  with a new state and stream (\<^verbatim>\<open>continue\<close>), or the process exits. Lemma \<open>read_data_pass\<close>
  shows that \<^verbatim>\<open>read_data\<close> is the repetition of this pass.
\<close>

datatype pass = Break | Continue read_state "string list" | Exit error

definition iteration :: "nat \<Rightarrow> int \<Rightarrow> read_state \<Rightarrow> string \<Rightarrow> string list \<Rightarrow> pass" where
  "iteration index sdepth st buffer fd =
     (if first_is buffer (CHR ''='') then Break
      else if strstr_brackets buffer then Continue st fd
      else if first_is buffer (CHR ''@'') then Continue (st\<lparr>have_function := False\<rparr>) fd
      else (case remove_new_line buffer of
          Inl err \<Rightarrow> Exit err
        | Inr line \<Rightarrow>
            if \<not> have_function st
            then (case fd of
                [] \<Rightarrow> Exit (Malformed_line line)
              | buffer2 # fd2 \<Rightarrow>
                  (case remove_new_line buffer2 of
                     Inl err \<Rightarrow> Exit err
                   | Inr line2 \<Rightarrow>
                       (case colon_at_last_space line2 of
                          Inl err \<Rightarrow> Exit err
                        | Inr fn \<Rightarrow>
                            Continue
                              (st\<lparr>stack_in := line @ fn, func_called := fn,
                                  depth := 1, have_function := True\<rparr>) fd2)))
            else if first_is line (CHR '']'')
            then (case strchr line (CHR '':'') of
                None \<Rightarrow> Exit (Malformed_line line)
              | Some i \<Rightarrow>
                  Continue
                    (st\<lparr>depth := 0,
                        lock_data :=
                          add_the_entry index (stack_in st) (func_called st)
                            (atoll (drop (Suc i) line)) (lock_data st)\<rparr>) fd)
            else if depth st < sdepth
            then (case colon_at_last_space line of
                Inl err \<Rightarrow> Exit err
              | Inr fn \<Rightarrow>
                  Continue
                    (st\<lparr>stack_in := stack_in st @ line, depth := depth st + 1,
                        func_called := func_called st @ fn\<rparr>) fd)
            else Continue (st\<lparr>stack_in := stack_in st @ line\<rparr>) fd))"

text \<open>
  The tops of the loop during one call of \<^verbatim>\<open>read_data\<close>: the state and the stream that is
  still to be read, each time the loop is about to read a line, in order.
\<close>

function loop_tops :: "nat \<Rightarrow> int \<Rightarrow> read_state \<Rightarrow> string list \<Rightarrow> (read_state \<times> string list) list" where
  "loop_tops index sdepth st fd =
     (st, fd) #
       (case fd of
          [] \<Rightarrow> []
        | buffer # rest \<Rightarrow>
            (case iteration index sdepth st buffer rest of
               Continue st' fd' \<Rightarrow> loop_tops index sdepth st' fd'
             | _ \<Rightarrow> []))"
  by pat_completeness auto
termination
  by (relation "measure (\<lambda>(index, sdepth, st, fd). length fd)")
     (auto simp: iteration_def split: if_splits sum.splits list.splits option.splits)

declare loop_tops.simps [simp del]

text \<open>
  The tops of the loop during \<^verbatim>\<open>lookup_data\<close>, each with the \<^verbatim>\<open>data\<close> index of the
  section it belongs to: those of the first section, and, when that section is read to its
  end, those of the sections after it.
\<close>

fun parser_tops ::
  "(nat \<times> nat) list \<Rightarrow> int \<Rightarrow> lock_info list \<Rightarrow> string list \<Rightarrow>
   (nat \<times> read_state \<times> string list) list" where
  "parser_tops [] sdepth ld fd = []"
| "parser_tops ((skip, index) # later) sdepth ld fd =
     map (Pair index) (loop_tops index sdepth (fresh_locals ld) (drop skip fd)) @
     (case read_data index sdepth (fresh_locals ld) (drop skip fd) of
        Inl err \<Rightarrow> []
      | Inr (st, fd') \<Rightarrow> parser_tops later sdepth (lock_data st) fd')"


subsection \<open>Decimal numerals\<close>

text \<open>The decimal digits of a natural number, most significant first.\<close>

fun decimal :: "nat \<Rightarrow> string" where
  "decimal n =
     (if n < 10 then [char_of (48 + n)]
      else decimal (n div 10) @ [char_of (48 + n mod 10)])"

declare decimal.simps [simp del]

text \<open>The text starts with a decimal digit.\<close>

definition first_digit :: "string \<Rightarrow> bool" where
  "first_digit t = (case t of [] \<Rightarrow> False | c # _ \<Rightarrow> isdigit c)"

section \<open>Inputs used in the examples\<close>

text \<open>The two stacks of the example scenario: both are attributed to \<open>foo+10\<close>; the first
  has 10 acquisitions of 100 ns on average, the second 30 of 300 ns.\<close>

definition example_A :: lock_info where
  "example_A =
     \<lparr>stack = ''mutex_lock+1 foo+10:a+1 '', called_from = ''foo+10:'',
      data = [100, 0, 10, 0, 0, 0, 0, 0]\<rparr>"

definition example_B :: lock_info where
  "example_B =
     \<lparr>stack = ''mutex_lock+1 foo+10:b+1 '', called_from = ''foo+10:'',
      data = [300, 0, 30, 0, 0, 0, 0, 0]\<rparr>"

text \<open>A stack attributed to another caller, \<open>goo+20\<close>.\<close>

definition example_G :: lock_info where
  "example_G =
     \<lparr>stack = ''mutex_lock+1 goo+20:c+1 '', called_from = ''goo+20:'',
      data = [7, 0, 1, 0, 0, 0, 0, 0]\<rparr>"

text \<open>
  A consolidated store of two callers: \<open>slow+1\<close> has the larger total acquisition time
  (10 ns on average over 100 acquisitions), \<open>rare+2\<close> the larger average (50 ns over 2).
\<close>

definition example_slow :: lock_info where
  "example_slow = \<lparr>stack = [], called_from = ''slow+1:'', data = [10, 0, 100, 0, 0, 0, 0, 0]\<rparr>"

definition example_rare :: lock_info where
  "example_rare = \<lparr>stack = [], called_from = ''rare+2:'', data = [50, 0, 2, 0, 0, 0, 0, 0]\<rparr>"

definition example_store :: cons_store where
  "example_store = \<lparr>cons_data = [example_slow, example_rare], number_cons_entries = 2\<rparr>"

text \<open>
  A data file at stack depth 1. The first section (acquisition averages) has the stack
  \<open>mutex_lock+1 / foo+10\<close> twice, with the values 100 and 5; the second section has it once
  more with 7; the last section has the stack \<open>mutex_lock+1 / goo+20\<close> with the value text
  \<open>abc\<close>; the other sections are empty.
\<close>

definition example_file :: "string list" where
  "example_file =
     [''Attaching 4 probes...\<newline>'', ''====\<newline>'', ''mutex aq _averages\<newline>'', ''====\<newline>'',
      ''@aq_report_avg[\<newline>'', '' mutex_lock+1\<newline>'', '' foo+10\<newline>'', '']: 100\<newline>'',
      ''@aq_report_avg[\<newline>'', '' mutex_lock+1\<newline>'', '' foo+10\<newline>'', '']: 5\<newline>'',
      ''====\<newline>'', ''mutex aq max\<newline>'', ''====\<newline>'',
      ''@aq_report_max[\<newline>'', '' mutex_lock+1\<newline>'', '' foo+10\<newline>'', '']: 7\<newline>'',
      ''====\<newline>'', ''mutex aq count\<newline>'', ''====\<newline>'',
      ''====\<newline>'', ''mutex hold avg\<newline>'', ''====\<newline>'',
      ''====\<newline>'', ''mutex hold max\<newline>'', ''====\<newline>'',
      ''====\<newline>'', ''mutex hold count\<newline>'', ''====\<newline>'',
      ''@hl_report_count[\<newline>'', '' mutex_lock+1\<newline>'', '' goo+20\<newline>'', '']: abc\<newline>'',
      ''====\<newline>'', ''END OF DATA\<newline>'', ''====\<newline>'']"

definition example_records :: "lock_info list" where
  "example_records =
     [\<lparr>stack = '' mutex_lock+1  foo+10:'', called_from = '' foo+10:'',
       data = [105, 7, 0, 0, 0, 0, 0, 0]\<rparr>,
      \<lparr>stack = '' mutex_lock+1  goo+20:'', called_from = '' goo+20:'',
       data = [0, 0, 0, 0, 0, 0, 0, 0]\<rparr>]"

text \<open>
  The example scenario as a data file at stack depth 1: two stacks below \<open>foo+10\<close>, the
  first with average 100 over 10 acquisitions, the second with average 300 over 30.
\<close>

definition example_scenario_file :: "string list" where
  "example_scenario_file =
     [''Attaching 4 probes...\<newline>'', ''====\<newline>'', ''mutex aq _averages\<newline>'', ''====\<newline>'',
      ''@aq_report_avg[\<newline>'', '' mutex_lock+1\<newline>'', '' foo+10\<newline>'', '' a+1\<newline>'', '']: 100\<newline>'',
      ''@aq_report_avg[\<newline>'', '' mutex_lock+1\<newline>'', '' foo+10\<newline>'', '' b+1\<newline>'', '']: 300\<newline>'',
      ''====\<newline>'', ''mutex aq max\<newline>'', ''====\<newline>'',
      ''====\<newline>'', ''mutex aq count\<newline>'', ''====\<newline>'',
      ''@aq_report_count[\<newline>'', '' mutex_lock+1\<newline>'', '' foo+10\<newline>'', '' a+1\<newline>'', '']: 10\<newline>'',
      ''@aq_report_count[\<newline>'', '' mutex_lock+1\<newline>'', '' foo+10\<newline>'', '' b+1\<newline>'', '']: 30\<newline>'',
      ''====\<newline>'', ''mutex hold avg\<newline>'', ''====\<newline>'',
      ''====\<newline>'', ''mutex hold max\<newline>'', ''====\<newline>'',
      ''====\<newline>'', ''mutex hold count\<newline>'', ''====\<newline>'',
      ''====\<newline>'', ''END OF DATA\<newline>'', ''====\<newline>'']"


text \<open>The state of the loop after the two frame lines of a stack have been read.\<close>

definition example_state :: read_state where
  "example_state =
     \<lparr>lock_data = [], func_called = '' goo+20:'', stack_in = '' mutex_lock+1  goo+20:'',
      depth = 1, have_function = True\<rparr>"

text \<open>The state of the loop in the example file when the loop is at the first terminator,
  and in the cut file when it is at the terminator without colon.\<close>

definition example_state_foo :: read_state where
  "example_state_foo =
     \<lparr>lock_data = [], func_called = '' foo+10:'', stack_in = '' mutex_lock+1  foo+10:'',
      depth = 1, have_function = True\<rparr>"





text \<open>A complete file whose only stack ends with a terminator that has the colon, the
  value 7 and, further on, the two characters \<open>[]\<close>.\<close>

definition example_skipped_file :: "string list" where
  "example_skipped_file =
     [''Attaching 4 probes...\<newline>'', ''====\<newline>'', ''mutex aq _averages\<newline>'', ''====\<newline>'',
      ''@aq_report_avg[\<newline>'', '' mutex_lock+1\<newline>'', '' goo+20\<newline>'', '']: 7 x[]\<newline>'',
      ''====\<newline>'', ''mutex aq max\<newline>'', ''====\<newline>'',
      ''====\<newline>'', ''mutex aq count\<newline>'', ''====\<newline>'',
      ''====\<newline>'', ''mutex hold avg\<newline>'', ''====\<newline>'',
      ''====\<newline>'', ''mutex hold max\<newline>'', ''====\<newline>'',
      ''====\<newline>'', ''mutex hold count\<newline>'', ''====\<newline>'',
      ''====\<newline>'', ''END OF DATA\<newline>'', ''====\<newline>'']"

section \<open>Properties of organize\_data\<close>

lemmas data_index_defs =
  ACQ_DATA_HOLD_AVG_def ACQ_DATA_HOLD_MAX_def ACQ_DATA_HOLD_COUNT_def ACQ_DATA_TOTAL_TIME_def
  HD_DATA_HOLD_AVG_def HD_DATA_HOLD_MAX_def HD_DATA_HOLD_COUNT_def HD_DATA_TOTAL_TIME_def

lemma adjust_average_Inr:
  "\<exists>e'. adjust_average avg cnt e w = Inr e'"
  by (simp add: adjust_average_def ldiv_def Let_def)

lemma adjust_average_length:
  "adjust_average avg cnt e w = Inr e' \<Longrightarrow> length e' = length e"
  by (auto simp: adjust_average_def ldiv_def Let_def split: if_splits)

lemma adjust_average_zero:
  "adjust_average avg cnt e w = Inr e' \<Longrightarrow> avg \<noteq> cnt \<Longrightarrow> cnt < length e \<Longrightarrow>
   e ! cnt + w ! cnt = 0 \<Longrightarrow> e' ! avg = e ! avg"
  by (auto simp: adjust_average_def ldiv_def Let_def split: if_splits)

lemma adjust_average_other:
  "adjust_average avg cnt e w = Inr e' \<Longrightarrow> i \<noteq> avg \<Longrightarrow> i \<noteq> cnt \<Longrightarrow> e' ! i = e ! i"
  by (auto simp: adjust_average_def ldiv_def Let_def split: if_splits)

lemma adjust_max_other:
  "i \<noteq> mx \<Longrightarrow> adjust_max mx e w ! i = e ! i"
  by (simp add: adjust_max_def)

lemma add_things_up_Inr: "\<exists>d. add_things_up e w = Inr d"
proof -
  obtain e1 where e1: "adjust_average ACQ_DATA_HOLD_AVG ACQ_DATA_HOLD_COUNT e w = Inr e1"
    using adjust_average_Inr by blast
  obtain e2 where e2: "adjust_average HD_DATA_HOLD_AVG HD_DATA_HOLD_COUNT e1 w = Inr e2"
    using adjust_average_Inr by blast
  show ?thesis by (simp add: add_things_up_def e1 e2)
qed

lemma organize_step_Inr: "\<exists>cs'. organize_step count wptr cs = Inr cs'"
proof -
  obtain cs1 entry_add where p:
    "(if count = 0
      then (cs\<lparr>cons_data := [new_cons_entry (called_from wptr)]\<rparr>, 0)
      else (case bsearch locate_caller (called_from wptr)
                   (take (number_cons_entries cs) (cons_data cs)) of
              Some i \<Rightarrow> (cs, i)
            | None \<Rightarrow>
                (\<lparr>cons_data = take (number_cons_entries cs) (cons_data cs) @
                               [new_cons_entry (called_from wptr)],
                  number_cons_entries = number_cons_entries cs + 1\<rparr>,
                 number_cons_entries cs))) = (cs1, entry_add)"
    by (meson surj_pair)
  obtain d where d: "add_things_up (data (cons_data cs1 ! entry_add)) (data wptr) = Inr d"
    using add_things_up_Inr by blast
  show ?thesis
    unfolding organize_step_def Let_def p using d by simp
qed

lemma organize_loop_Inr: "\<exists>cs'. organize_loop count ws cs = Inr cs'"
proof (induction ws arbitrary: count cs)
  case Nil
  then show ?case by simp
next
  case (Cons w ws)
  obtain cs1 where "organize_step count w cs = Inr cs1"
    using organize_step_Inr by blast
  then show ?case using Cons.IH [of "Suc count" cs1] by simp
qed

text \<open>
  What the loop does with any two stack records: the result is the second record folded
  into a zeroed element; nothing of the first record is left in it, whether or not the
  two have the same \<^verbatim>\<open>called_from\<close>.
\<close>

lemma organize_loop_forgets_first_of_two:
  "\<exists>d. add_things_up [0, 0, 0, 0, 0, 0, 0, 0] (data w2) = Inr d \<and>
        organize_loop 0 [w1, w2] no_cons =
          Inr \<lparr>cons_data = [\<lparr>stack = [], called_from = called_from w2, data = d\<rparr>],
               number_cons_entries = 1\<rparr>"
proof -
  obtain d1 where d1: "add_things_up [0, 0, 0, 0, 0, 0, 0, 0] (data w1) = Inr d1"
    using add_things_up_Inr by blast
  obtain d where d: "add_things_up [0, 0, 0, 0, 0, 0, 0, 0] (data w2) = Inr d"
    using add_things_up_Inr by blast
  have 1: "organize_step 0 w1 no_cons =
        Inr \<lparr>cons_data = [\<lparr>stack = [], called_from = called_from w1, data = d1\<rparr>],
             number_cons_entries = 0\<rparr>"
    by (simp add: organize_step_def no_cons_def new_cons_entry_def d1)
  have 2: "organize_step (Suc 0) w2
        \<lparr>cons_data = [\<lparr>stack = [], called_from = called_from w1, data = d1\<rparr>],
         number_cons_entries = 0\<rparr> =
        Inr \<lparr>cons_data = [\<lparr>stack = [], called_from = called_from w2, data = d\<rparr>],
             number_cons_entries = 1\<rparr>"
    by (simp add: organize_step_def new_cons_entry_def d)
  show ?thesis using d 1 2 by simp
qed

text \<open>
  C8. In the fold step of both families the division is guarded by the merged count: the
  step never divides by zero (it always returns a merged vector, and so does the whole of
  \<^verbatim>\<open>organize_data\<close>), and when the merged count of a family is zero the average of that
  family is the one the record had before the step.
\<close>

theorem zero_count_guard:
  assumes "length e = 8"
  shows "(\<exists>e'. add_things_up e w = Inr e' \<and>
           (e ! ACQ_DATA_HOLD_COUNT + w ! ACQ_DATA_HOLD_COUNT = 0 \<longrightarrow>
              e' ! ACQ_DATA_HOLD_AVG = e ! ACQ_DATA_HOLD_AVG) \<and>
           (e ! HD_DATA_HOLD_COUNT + w ! HD_DATA_HOLD_COUNT = 0 \<longrightarrow>
              e' ! HD_DATA_HOLD_AVG = e ! HD_DATA_HOLD_AVG))
         \<and> (\<exists>cs. organize_data ld = Inr cs)"
proof -
  obtain e1 where e1: "adjust_average ACQ_DATA_HOLD_AVG ACQ_DATA_HOLD_COUNT e w = Inr e1"
    using adjust_average_Inr by blast
  obtain e2 where e2: "adjust_average HD_DATA_HOLD_AVG HD_DATA_HOLD_COUNT e1 w = Inr e2"
    using adjust_average_Inr by blast
  let ?e' = "adjust_max HD_DATA_HOLD_MAX (adjust_max ACQ_DATA_HOLD_MAX e2 w) w"
  have res: "add_things_up e w = Inr ?e'"
    by (simp add: add_things_up_def e1 e2)
  have len1: "length e1 = 8"
    using adjust_average_length [OF e1] assms by simp
  have acq: "?e' ! ACQ_DATA_HOLD_AVG = e1 ! ACQ_DATA_HOLD_AVG"
    using adjust_average_other [OF e2, of ACQ_DATA_HOLD_AVG]
    by (simp add: adjust_max_other data_index_defs)
  have hd: "?e' ! HD_DATA_HOLD_AVG = e2 ! HD_DATA_HOLD_AVG"
    by (simp add: adjust_max_other data_index_defs)
  have hd_cnt: "e1 ! HD_DATA_HOLD_COUNT = e ! HD_DATA_HOLD_COUNT"
    using adjust_average_other [OF e1, of HD_DATA_HOLD_COUNT] by (simp add: data_index_defs)
  have hd_avg: "e1 ! HD_DATA_HOLD_AVG = e ! HD_DATA_HOLD_AVG"
    using adjust_average_other [OF e1, of HD_DATA_HOLD_AVG] by (simp add: data_index_defs)
  have a: "e ! ACQ_DATA_HOLD_COUNT + w ! ACQ_DATA_HOLD_COUNT = 0 \<longrightarrow>
             ?e' ! ACQ_DATA_HOLD_AVG = e ! ACQ_DATA_HOLD_AVG"
    using adjust_average_zero [OF e1] assms acq by (simp add: data_index_defs)
  have b: "e ! HD_DATA_HOLD_COUNT + w ! HD_DATA_HOLD_COUNT = 0 \<longrightarrow>
             ?e' ! HD_DATA_HOLD_AVG = e ! HD_DATA_HOLD_AVG"
    using adjust_average_zero [OF e2] len1 hd hd_cnt hd_avg by (simp add: data_index_defs)
  have c: "\<exists>cs. organize_data ld = Inr cs"
    unfolding organize_data_def by (rule organize_loop_Inr)
  from res a b c show ?thesis by blast
qed

text \<open>
  The guard at work: a record with average 5 and count \<open>- 3\<close> in the acquisition family
  (average 9 and count 0 in the hold family) merged with a stack of count 3 (and hold count
  0) has merged counts 0, and both averages stay 5 and 9.
\<close>

theorem zero_count_guard_witness:
  "length [5, 0, - 3, 0, 9, 0, 0, 0 :: int] = 8 \<and>
   [5, 0, - 3, 0, 9, 0, 0, 0 :: int] ! ACQ_DATA_HOLD_COUNT
     + [7, 0, 3, 0, 4, 0, 0, 0] ! ACQ_DATA_HOLD_COUNT = 0 \<and>
   [5, 0, - 3, 0, 9, 0, 0, 0 :: int] ! HD_DATA_HOLD_COUNT
     + [7, 0, 3, 0, 4, 0, 0, 0] ! HD_DATA_HOLD_COUNT = 0 \<and>
   (\<exists>e'. add_things_up [5, 0, - 3, 0, 9, 0, 0, 0] [7, 0, 3, 0, 4, 0, 0, 0] = Inr e' \<and>
      e' ! ACQ_DATA_HOLD_AVG = 5 \<and> e' ! HD_DATA_HOLD_AVG = 9)"
  using zero_count_guard [of "[5, 0, - 3, 0, 9, 0, 0, 0]" "[7, 0, 3, 0, 4, 0, 0, 0]" "[]"]
  by (simp add: data_index_defs)

text \<open>
  C1 on the code, at the input of the example scenario. The first loop iteration allocates
  the element for the first stack but does not count it, so the second iteration searches
  zero elements, counts one, and zeroes and reuses that same element: the first stack is
  lost. Whichever of the two stacks \<^verbatim>\<open>qsort\<close> puts first, the consolidated record holds the
  other one only (count 30 and average 300, or count 10 and average 100), not count 40 and
  average 250. The same is seen on a whole run over the scenario as a data file: the
  row of \<open>foo+10\<close> shows 30 acquisitions of 300 ns on average.
\<close>

theorem consolidation_example_loses_first_stack:
  "organize_data [example_A, example_B] =
     Inr \<lparr>cons_data = [\<lparr>stack = [], called_from = ''foo+10:'',
                        data = [300, 0, 30, 0, 0, 0, 0, 0]\<rparr>],
          number_cons_entries = 1\<rparr>
   \<and> organize_data [example_B, example_A] =
     Inr \<lparr>cons_data = [\<lparr>stack = [], called_from = ''foo+10:'',
                        data = [100, 0, 10, 0, 0, 0, 0, 0]\<rparr>],
          number_cons_entries = 1\<rparr>
   \<and> lookup_data (Some example_scenario_file) 1 =
     Inr [\<lparr>stack = '' mutex_lock+1  foo+10: a+1 '', called_from = '' foo+10:'',
           data = [100, 0, 10, 0, 0, 0, 0, 0]\<rparr>,
          \<lparr>stack = '' mutex_lock+1  foo+10: b+1 '', called_from = '' foo+10:'',
           data = [300, 0, 30, 0, 0, 0, 0, 0]\<rparr>]
   \<and> main [] (Some example_scenario_file) =
     \<lparr>status = EXIT_SUCCESS, stderr_lines = [],
      report_out =
        Written [\<lparr>row_caller = '' foo+10'', row_holds = 0, row_hold_max = 0, row_hold_avg = 0,
                  row_acqs = 30, row_acq_max = 0, row_acq_avg = 300, row_frames = []\<rparr>]\<rparr>"
  by code_simp

text \<open>
  C2 on the code. With a single stack the element is allocated but never counted: the
  consolidated store the report sees is empty although one caller occurs. With two stacks
  of two callers, the only consolidated record is that of the second caller; so the report
  of a whole run over the example file, whose store has the callers \<open>foo+10\<close> and \<open>goo+20\<close>,
  has the row of \<open>goo+20\<close> only.
\<close>

theorem consolidation_misses_first_caller:
  "organize_data [example_A] =
     Inr \<lparr>cons_data = [\<lparr>stack = [], called_from = ''foo+10:'',
                        data = [100, 0, 10, 0, 0, 0, 0, 0]\<rparr>],
          number_cons_entries = 0\<rparr>
   \<and> consolidated
       \<lparr>cons_data = [\<lparr>stack = [], called_from = ''foo+10:'',
                       data = [100, 0, 10, 0, 0, 0, 0, 0]\<rparr>],
        number_cons_entries = 0\<rparr> = []
   \<and> map_sum id (\<lambda>cs. map called_from (consolidated cs)) (organize_data [example_A, example_G])
       = Inr [''goo+20:'']
   \<and> lookup_data (Some example_file) 1 = Inr example_records
   \<and> main [] (Some example_file) =
     \<lparr>status = EXIT_SUCCESS, stderr_lines = [],
      report_out =
        Written [\<lparr>row_caller = '' goo+20'', row_holds = 0, row_hold_max = 0, row_hold_avg = 0,
                  row_acqs = 0, row_acq_max = 0, row_acq_avg = 0, row_frames = []\<rparr>]\<rparr>"
  by code_simp

section \<open>Properties of the sort option\<close>

text \<open>
  C3 on the code. Without \<^verbatim>\<open>-S\<close> the sort option is \<^verbatim>\<open>ACQS_SPENT\<close>, which is 6, and 6
  selects \<^verbatim>\<open>sort_aq_average\<close>: the example store is reported with the larger average
  first, while option 7 (total acquisition time) reports the larger total first.
\<close>

theorem default_sort_is_acq_average:
  "getopt_loop [] initial_config = Inr initial_config
   \<and> opt_sort_on initial_config = 6
   \<and> map_sum id (map row_caller)
       (dump_data None (opt_sort_on initial_config) (opt_number_to_show initial_config)
          example_store) = Inr [''rare+2'', ''slow+1'']
   \<and> map_sum id (map row_caller)
       (dump_data None 7 (opt_number_to_show initial_config) example_store)
       = Inr [''slow+1'', ''rare+2'']"
  by code_simp

text \<open>
  C4 on the code. \<^verbatim>\<open>-S 8\<close> and \<^verbatim>\<open>-S 7\<close> both give the message and option 6, whose
  comparator orders by the average (it puts \<open>rare+2\<close> before \<open>slow+1\<close>, which the total
  would not). \<^verbatim>\<open>-S -1\<close> gives no message and is passed on as it is; the \<^verbatim>\<open>switch\<close> then
  takes its last branch.
\<close>

theorem sort_option_clamp:
  "getopt_loop [(CHR ''S'', ''8'')] initial_config =
     Inr (initial_config\<lparr>opt_sort_on := 6,
            messages := [''Invalid sort option, defaulting to option 6'']\<rparr>)
   \<and> getopt_loop [(CHR ''S'', ''7'')] initial_config =
     Inr (initial_config\<lparr>opt_sort_on := 6,
            messages := [''Invalid sort option, defaulting to option 6'']\<rparr>)
   \<and> getopt_loop [(CHR ''S'', ''-1'')] initial_config =
     Inr (initial_config\<lparr>opt_sort_on := - 1\<rparr>)
   \<and> sort_routine 6 (set_totals example_slow) (set_totals example_rare) = 1
   \<and> sort_aq_spin (set_totals example_slow) (set_totals example_rare) = - 1
   \<and> sort_routine (- 1) (set_totals example_slow) (set_totals example_rare) = - 1"
  by code_simp

section \<open>Properties of the library models\<close>

lemma strcmp_eq_0 [simp]: "strcmp a b = 0 \<longleftrightarrow> a = b"
  by (auto simp: strcmp_def)

lemma strcmp_le_0: "strcmp a b \<le> 0 \<longleftrightarrow> a \<le> b"
  by (auto simp: strcmp_def)

lemma set_insert_by: "set (insert_by cmp x xs) = insert x (set xs)"
  by (induction xs) auto

lemma length_insert_by: "length (insert_by cmp x xs) = Suc (length xs)"
  by (induction xs) auto

lemma distinct_map_insert_by:
  "distinct (map f (insert_by cmp x xs)) \<longleftrightarrow> f x \<notin> f ` set xs \<and> distinct (map f xs)"
  by (induction xs) (auto simp: set_insert_by)

lemma set_qsort: "set (qsort cmp xs) = set xs"
  unfolding qsort_def by (induction xs) (auto simp: set_insert_by)

lemma length_qsort: "length (qsort cmp xs) = length xs"
  unfolding qsort_def by (induction xs) (auto simp: length_insert_by)

lemma distinct_map_qsort: "distinct (map f (qsort cmp xs)) = distinct (map f xs)"
proof (induction xs)
  case Nil
  then show ?case by (simp add: qsort_def)
next
  case (Cons x xs)
  have "qsort cmp (x # xs) = insert_by cmp x (qsort cmp xs)"
    by (simp add: qsort_def)
  then show ?case
    using Cons.IH by (simp add: distinct_map_insert_by set_qsort)
qed

text \<open>\<^verbatim>\<open>qsort\<close> with \<^verbatim>\<open>sort_stack\<close> leaves the array in the order \<^verbatim>\<open>bsearch\<close> with
  \<^verbatim>\<open>locate_stack\<close> needs.\<close>

lemma sorted_insert_by_stack:
  "sorted (map stack xs) \<Longrightarrow> sorted (map stack (insert_by sort_stack x xs))"
  by (induction xs) (auto simp: sort_stack_def strcmp_le_0 set_insert_by)

lemma sorted_qsort_stack: "sorted (map stack (qsort sort_stack xs))"
proof (induction xs)
  case Nil
  then show ?case by (simp add: qsort_def)
next
  case (Cons x xs)
  have "qsort sort_stack (x # xs) = insert_by sort_stack x (qsort sort_stack xs)"
    by (simp add: qsort_def)
  then show ?case using Cons.IH by (simp add: sorted_insert_by_stack)
qed

lemma takeWhile_neq_less: "c \<in> set s \<Longrightarrow> length (takeWhile (\<lambda>x. x \<noteq> c) s) < length s"
  by (induction s) auto

lemma takeWhile_neq_nth: "c \<in> set s \<Longrightarrow> s ! length (takeWhile (\<lambda>x. x \<noteq> c) s) = c"
  by (induction s) auto

lemma strchr_Some: "strchr s c = Some i \<Longrightarrow> i < length s \<and> s ! i = c"
  using takeWhile_neq_less [of c s] takeWhile_neq_nth [of c s]
  by (auto simp: strchr_def split: if_splits)

lemma strchr_None: "strchr s c = None \<longleftrightarrow> c \<notin> set s"
  by (simp add: strchr_def)

section \<open>Properties of read\_data and lookup\_data\<close>

subsection \<open>The store is the entries added in order\<close>

lemma add_all_Nil [simp]: "add_all [] ld = ld"
  by (simp add: add_all_def)

lemma add_all_Cons [simp]:
  "add_all ((i, s, f, v) # es) ld = add_all es (add_the_entry i s f v ld)"
  by (simp add: add_all_def)

lemma add_all_append: "add_all (xs @ ys) ld = add_all ys (add_all xs ld)"
  by (simp add: add_all_def)

lemma read_data_entries:
  "read_data index sdepth st fd = Inr (st', fd') \<Longrightarrow>
   section_entries sdepth (func_called st) (stack_in st) (depth st) (have_function st) fd = (es, r) \<Longrightarrow>
   lock_data st' = add_all (map (Pair index) es) (lock_data st) \<and> r = fd'"
proof (induction index sdepth st fd arbitrary: es r rule: read_data.induct)
  case (1 index sdepth st)
  then show ?case by simp
next
  case (2 index sdepth st buffer fd)
  show ?case
  proof (cases "first_is buffer (CHR ''='')")
    case True
    with "2.prems" show ?thesis by auto
  next
    case eq: False
    show ?thesis
    proof (cases "strstr_brackets buffer")
      case True
      with eq "2.prems" "2.IH"(1) show ?thesis by simp
    next
      case br: False
      show ?thesis
      proof (cases "first_is buffer (CHR ''@'')")
        case True
        with eq br "2.prems" "2.IH"(2) [of es r] show ?thesis by simp
      next
        case at: False
        from eq br at "2.prems"(1) obtain line where line: "remove_new_line buffer = Inr line"
          by (cases "remove_new_line buffer") auto
        note IH = "2.IH"(3-6) [OF eq br at line]
        show ?thesis
        proof (cases "have_function st")
          case False
          with eq br at line "2.prems" IH(1) show ?thesis
            by (auto split: list.splits sum.splits)
        next
          case hf: True
          show ?thesis
          proof (cases "first_is line (CHR '']'')")
            case True
            with eq br at line hf "2.prems" IH(2) show ?thesis
              by (auto split: option.splits prod.splits)
          next
            case trm: False
            show ?thesis
            proof (cases "depth st < sdepth")
              case True
              with eq br at line hf trm "2.prems" IH(3) show ?thesis
                by (auto split: sum.splits)
            next
              case False
              with eq br at line hf trm "2.prems" IH(4) show ?thesis
                by (auto split: sum.splits)
            qed
          qed
        qed
      qed
    qed
  qed
qed

lemma read_sections_entries:
  "read_sections secs sdepth ld fd = Inr ld' \<Longrightarrow> ld' = add_all (file_entries secs sdepth fd) ld"
proof (induction secs sdepth ld fd rule: read_sections.induct)
  case (1 sdepth ld fd)
  then show ?case by simp
next
  case (2 skip index later sdepth ld fd)
  from "2.prems" obtain st fd' where
    rd: "read_data index sdepth (fresh_locals ld) (drop skip fd) = Inr (st, fd')"
    and rest: "read_sections later sdepth (lock_data st) fd' = Inr ld'"
    by (auto split: sum.splits)
  obtain es r where se: "section_entries sdepth [] [] 0 False (drop skip fd) = (es, r)"
    by (meson surj_pair)
  have "lock_data st = add_all (map (Pair index) es) ld \<and> r = fd'"
    using read_data_entries [OF rd, of es r] se by (simp add: fresh_locals_def)
  moreover have "ld' = add_all (file_entries later sdepth fd') (lock_data st)"
    using "2.IH" [OF rd refl rest] .
  ultimately show ?case using se by (simp add: add_all_append)
qed

lemma lookup_data_entries:
  "lookup_data (Some fd) sdepth = Inr ld \<Longrightarrow> ld = add_all (file_entries sections sdepth fd) []"
  by (simp add: lookup_data_def read_sections_entries)


lemma sections_index: "i \<in> snd ` set sections \<Longrightarrow> i < 8"
  by (auto simp: sections_def data_index_defs)

subsection \<open>Adding one entry\<close>

lemma bsearch_stack_None: "bsearch locate_stack s ld = None \<longleftrightarrow> s \<notin> stack ` set ld"
  by (induction ld) (auto simp: locate_stack_def)

lemma bsearch_stack_Some:
  "bsearch locate_stack s ld = Some i \<Longrightarrow> i < length ld \<and> stack (ld ! i) = s"
  by (induction ld arbitrary: i) (auto simp: locate_stack_def split: if_splits)

lemma record_for_qsort:
  assumes "distinct (map stack xs)"
  shows "record_for (qsort cmp xs) = record_for xs"
proof -
  let ?g = "\<lambda>e. (stack e, e)"
  have 1: "distinct (map fst (map ?g xs))" using assms by (simp add: comp_def)
  have 2: "distinct (map fst (map ?g (qsort cmp xs)))"
    using assms distinct_map_qsort [of stack cmp xs] by (simp add: comp_def)
  have 3: "set (map ?g (qsort cmp xs)) = set (map ?g xs)"
    by (simp add: set_qsort)
  have "map_of (map ?g (qsort cmp xs)) = map_of (map ?g xs)"
    using map_of_inject_set [OF 2 1] 3 by simp
  then show ?thesis by (simp add: record_for_def fun_eq_iff)
qed

lemma record_for_append_new:
  "record_for (ld @ [e]) s =
     (case record_for ld s of Some x \<Rightarrow> Some x | None \<Rightarrow> if stack e = s then Some e else None)"
  by (auto simp: record_for_def map_add_def split: option.splits)

lemma record_for_None: "record_for ld s = None \<longleftrightarrow> s \<notin> stack ` set ld"
  by (auto simp: record_for_def map_of_eq_None_iff image_iff)

lemma record_for_found:
  "bsearch locate_stack s ld = Some i \<Longrightarrow> record_for ld s = Some (ld ! i)"
  by (induction ld arbitrary: i) (auto simp: record_for_def locate_stack_def split: if_splits)

lemma record_for_update:
  "bsearch locate_stack s ld = Some i \<Longrightarrow> stack e' = s \<Longrightarrow>
   record_for (ld[i := e']) s' = (if s' = s then Some e' else record_for ld s')"
proof (induction ld arbitrary: i)
  case Nil
  then show ?case by simp
next
  case (Cons x xs)
  show ?case
  proof (cases "locate_stack s x = 0")
    case True
    with Cons.prems show ?thesis
      by (auto simp: record_for_def locate_stack_def)
  next
    case False
    with Cons.prems obtain k where k: "bsearch locate_stack s xs = Some k" "i = Suc k"
      by auto
    from Cons.IH [OF k(1) Cons.prems(2)] False k(2) show ?thesis
      by (auto simp: record_for_def locate_stack_def)
  qed
qed

lemma zeros_replicate: "[0, 0, 0, 0, 0, 0, 0, 0 :: int] = replicate 8 0"
  by (simp add: eval_nat_numeral)

lemma new_lock_entry_simps [simp]:
  "stack (new_lock_entry index s f v) = s"
  "called_from (new_lock_entry index s f v) = f"
  "length (data (new_lock_entry index s f v)) = 8"
  unfolding new_lock_entry_def zeros_replicate by simp_all

lemma new_lock_entry_data:
  "j < 8 \<Longrightarrow> index < 8 \<Longrightarrow> data (new_lock_entry index s f v) ! j = (if j = index then v else 0)"
  unfolding new_lock_entry_def zeros_replicate by (auto simp: nth_list_update)

lemma add_the_entry_new:
  "bsearch locate_stack s ld = None \<Longrightarrow>
   add_the_entry index s f v ld = qsort sort_stack (ld @ [new_lock_entry index s f v])"
  by (cases ld) (simp_all add: add_the_entry_def)

lemma add_the_entry_old:
  "bsearch locate_stack s ld = Some i \<Longrightarrow>
   add_the_entry index s f v ld =
     ld[i := (ld ! i)\<lparr>data := (data (ld ! i))[index := data (ld ! i) ! index + v]\<rparr>]"
  by (cases ld) (simp_all add: add_the_entry_def)

lemma map_stack_update:
  "i < length ld \<Longrightarrow> stack e = stack (ld ! i) \<Longrightarrow> map stack (ld[i := e]) = map stack ld"
  by (simp add: map_update list_update_same_conv)

lemma stacks_add_the_entry:
  "stack ` set (add_the_entry index s f v ld) = insert s (stack ` set ld)"
proof (cases "bsearch locate_stack s ld")
  case None
  then show ?thesis
    by (simp add: add_the_entry_new set_qsort)
next
  case (Some i)
  then have i: "i < length ld" "stack (ld ! i) = s" using bsearch_stack_Some by auto
  let ?e = "(ld ! i)\<lparr>data := (data (ld ! i))[index := data (ld ! i) ! index + v]\<rparr>"
  have "map stack (ld[i := ?e]) = map stack ld"
    using i by (simp add: map_stack_update)
  then have "stack ` set (ld[i := ?e]) = stack ` set ld"
    by (metis set_map)
  moreover have "s \<in> stack ` set ld" using i by (metis imageI nth_mem)
  ultimately show ?thesis using Some by (auto simp: add_the_entry_old)
qed

lemma store_ok_add_the_entry:
  assumes "store_ok ld"
  shows "store_ok (add_the_entry index s f v ld)"
proof (cases "bsearch locate_stack s ld")
  case None
  then have "s \<notin> stack ` set ld" by (simp add: bsearch_stack_None)
  with assms have "store_ok (ld @ [new_lock_entry index s f v])"
    by (auto simp: store_ok_def)
  then have "store_ok (qsort sort_stack (ld @ [new_lock_entry index s f v]))"
    unfolding store_ok_def list_all_iff by (simp add: distinct_map_qsort set_qsort)
  then show ?thesis using None by (simp add: add_the_entry_new)
next
  case (Some i)
  then have i: "i < length ld" "stack (ld ! i) = s" using bsearch_stack_Some by auto
  let ?e = "(ld ! i)\<lparr>data := (data (ld ! i))[index := data (ld ! i) ! index + v]\<rparr>"
  have m: "map stack (ld[i := ?e]) = map stack ld"
    using i by (simp add: map_stack_update)
  have "length (data (ld ! i)) = 8" using assms i by (simp add: store_ok_def list_all_length)
  then have "list_all (\<lambda>e. length (data e) = 8) (ld[i := ?e])"
    using assms unfolding store_ok_def list_all_iff
    by (auto dest!: set_update_subset_insert [THEN subsetD])
  moreover have "distinct (map stack (ld[i := ?e]))" using assms m by (simp add: store_ok_def)
  ultimately show ?thesis using Some by (simp add: add_the_entry_old store_ok_def)
qed

lemma sorted_add_the_entry:
  assumes "sorted (map stack ld)"
  shows "sorted (map stack (add_the_entry index s f v ld))"
proof (cases "bsearch locate_stack s ld")
  case None
  then show ?thesis by (simp add: add_the_entry_new sorted_qsort_stack)
next
  case (Some i)
  then have "i < length ld" "stack (ld ! i) = s" using bsearch_stack_Some by auto
  then show ?thesis using assms Some by (simp add: add_the_entry_old map_stack_update)
qed

lemma metric_add_the_entry:
  assumes "store_ok ld" "index < 8" "j < 8"
  shows "metric (add_the_entry index s f v ld) s' j =
         metric ld s' j + (if s' = s \<and> j = index then v else 0)"
proof (cases "bsearch locate_stack s ld")
  case None
  then have ns: "s \<notin> stack ` set ld" by (simp add: bsearch_stack_None)
  let ?n = "new_lock_entry index s f v"
  have d: "distinct (map stack (ld @ [?n]))" using assms(1) ns by (auto simp: store_ok_def)
  have r: "record_for (add_the_entry index s f v ld) s' =
        (case record_for ld s' of Some x \<Rightarrow> Some x | None \<Rightarrow> if s = s' then Some ?n else None)"
    unfolding add_the_entry_new [OF None] record_for_qsort [OF d]
    by (simp add: record_for_append_new)
  show ?thesis
  proof (cases "s' = s")
    case True
    then have "record_for ld s' = None" using ns by (simp add: record_for_None)
    then show ?thesis using True r assms by (simp add: metric_def new_lock_entry_data)
  next
    case False
    then show ?thesis using r by (auto simp: metric_def split: option.splits)
  qed
next
  case (Some i)
  then have i: "i < length ld" "stack (ld ! i) = s" using bsearch_stack_Some by auto
  let ?e = "(ld ! i)\<lparr>data := (data (ld ! i))[index := data (ld ! i) ! index + v]\<rparr>"
  have len: "length (data (ld ! i)) = 8" using assms i by (simp add: store_ok_def list_all_length)
  have r: "record_for (ld[i := ?e]) s' = (if s' = s then Some ?e else record_for ld s')"
    using record_for_update [OF Some, of ?e s'] i by simp
  have f: "record_for ld s = Some (ld ! i)" using record_for_found [OF Some] .
  show ?thesis
    unfolding add_the_entry_old [OF Some] using r f len assms
    by (auto simp: metric_def nth_list_update)
qed

subsection \<open>Adding all entries\<close>

lemma store_ok_Nil: "store_ok []"
  by (simp add: store_ok_def)


lemma store_ok_add_all: "store_ok ld \<Longrightarrow> store_ok (add_all es ld)"
  by (induction es arbitrary: ld) (auto simp: store_ok_add_the_entry)

text \<open>The precondition of \<^verbatim>\<open>bsearch\<close> holds at every search of \<^verbatim>\<open>read_data\<close>: the store is
  sorted by stack signature, and (by \<open>store_ok\<close>) no two elements have the same one.\<close>

lemma sorted_add_all: "sorted (map stack ld) \<Longrightarrow> sorted (map stack (add_all es ld))"
  by (induction es arbitrary: ld) (auto simp: sorted_add_the_entry)







subsection \<open>The loop of read\_data, pass by pass\<close>

lemma read_data_pass:
  "read_data index sdepth st (buffer # fd) =
     (case iteration index sdepth st buffer fd of
        Break \<Rightarrow> Inr (st, fd)
      | Continue st' fd' \<Rightarrow> read_data index sdepth st' fd'
      | Exit err \<Rightarrow> Inl err)"
  by (simp add: iteration_def split: sum.splits list.splits option.splits)

lemma loop_tops_mem:
  "(st', fd') \<in> set (loop_tops index sdepth st fd) \<longleftrightarrow>
     (st', fd') = (st, fd) \<or>
     (\<exists>b r st1 fd1. fd = b # r \<and> iteration index sdepth st b r = Continue st1 fd1 \<and>
        (st', fd') \<in> set (loop_tops index sdepth st1 fd1))"
proof (cases fd)
  case Nil
  then show ?thesis by (subst loop_tops.simps) auto
next
  case (Cons b r)
  show ?thesis
  proof (cases "iteration index sdepth st b r")
    case Break
    then show ?thesis using Cons by (subst loop_tops.simps) auto
  next
    case (Continue st1 fd1)
    then show ?thesis using Cons by (subst loop_tops.simps) auto
  next
    case (Exit err)
    then show ?thesis using Cons by (subst loop_tops.simps) auto
  qed
qed

lemma parser_tops_mem:
  "(i, st, s) \<in> set (parser_tops ((skip, index) # later) sdepth ld fd) \<longleftrightarrow>
     (i = index \<and> (st, s) \<in> set (loop_tops index sdepth (fresh_locals ld) (drop skip fd))) \<or>
     (\<exists>st1 fd1. read_data index sdepth (fresh_locals ld) (drop skip fd) = Inr (st1, fd1) \<and>
        (i, st, s) \<in> set (parser_tops later sdepth (lock_data st1) fd1))"
proof (cases "read_data index sdepth (fresh_locals ld) (drop skip fd)")
  case (Inl err)
  then show ?thesis by auto
next
  case (Inr p)
  obtain st1 fd1 where "p = (st1, fd1)" by (cases p) auto
  with Inr show ?thesis by auto
qed

lemma loop_tops_start: "(st, fd) \<in> set (loop_tops index sdepth st fd)"
  by (subst loop_tops.simps) simp

lemma loop_tops_next:
  "iteration index sdepth st buffer rest = Continue st' fd' \<Longrightarrow>
   set (loop_tops index sdepth st' fd') \<subseteq> set (loop_tops index sdepth st (buffer # rest))"
  by (subst (2) loop_tops.simps) auto

lemma loop_tops_step:
  "(st1, buffer # rest) \<in> set (loop_tops index sdepth st fd) \<Longrightarrow>
   iteration index sdepth st1 buffer rest = Continue st2 fd2 \<Longrightarrow>
   (st2, fd2) \<in> set (loop_tops index sdepth st fd)"
proof (induction index sdepth st fd rule: loop_tops.induct)
  case (1 index sdepth st fd)
  from "1.prems"(1) consider "(st1, buffer # rest) = (st, fd)"
    | b r st' fd' where "fd = b # r" "iteration index sdepth st b r = Continue st' fd'"
        "(st1, buffer # rest) \<in> set (loop_tops index sdepth st' fd')"
    using loop_tops_mem [of st1 "buffer # rest" index sdepth st fd] by blast
  then show ?case
  proof cases
    case 1
    then have "(st2, fd2) \<in> set (loop_tops index sdepth st2 fd2)"
      by (simp add: loop_tops_start)
    then show ?thesis
      using loop_tops_next [of index sdepth st buffer rest st2 fd2] 1 "1.prems"(2) by auto
  next
    case 2
    then have "(st2, fd2) \<in> set (loop_tops index sdepth st' fd')"
      using "1.IH" "1.prems"(2) by simp
    then show ?thesis
      using loop_tops_next [OF 2(2)] 2(1) by auto
  qed
qed



lemma parser_tops_step:
  "(i, st1, buffer # rest) \<in> set (parser_tops secs sdepth ld fd) \<Longrightarrow>
   iteration i sdepth st1 buffer rest = Continue st2 fd2 \<Longrightarrow>
   (i, st2, fd2) \<in> set (parser_tops secs sdepth ld fd)"
proof (induction secs sdepth ld fd rule: parser_tops.induct)
  case (1 sdepth ld fd)
  then show ?case by simp
next
  case (2 skip index later sdepth ld fd)
  from "2.prems"(1) consider
      "i = index"
      "(st1, buffer # rest) \<in> set (loop_tops index sdepth (fresh_locals ld) (drop skip fd))"
    | st' fd' where "read_data index sdepth (fresh_locals ld) (drop skip fd) = Inr (st', fd')"
        "(i, st1, buffer # rest) \<in> set (parser_tops later sdepth (lock_data st') fd')"
    using parser_tops_mem [of i st1 "buffer # rest" skip index later sdepth ld fd] by blast
  then show ?case
  proof cases
    case 1
    then have "(st2, fd2) \<in> set (loop_tops index sdepth (fresh_locals ld) (drop skip fd))"
      using loop_tops_step "2.prems"(2) by simp
    then show ?thesis using 1(1) by simp
  next
    case 2
    then show ?thesis using "2.IH" [OF 2(1) refl 2(2) "2.prems"(2)] by simp
  qed
qed

lemma parser_tops_index:
  "(i, st, s) \<in> set (parser_tops secs sdepth ld fd) \<Longrightarrow> i \<in> snd ` set secs"
proof (induction secs sdepth ld fd rule: parser_tops.induct)
  case (1 sdepth ld fd)
  then show ?case by simp
next
  case (2 skip index later sdepth ld fd)
  from "2.prems" consider "i = index"
    | st1 fd1 where "read_data index sdepth (fresh_locals ld) (drop skip fd) = Inr (st1, fd1)"
        "(i, st, s) \<in> set (parser_tops later sdepth (lock_data st1) fd1)"
    using parser_tops_mem [of i st s skip index later sdepth ld fd] by blast
  then show ?case
  proof cases
    case 1
    then show ?thesis by simp
  next
    case 2
    then show ?thesis using "2.IH" [OF 2(1) refl 2(2)] by simp
  qed
qed

lemma iteration_store_ok:
  "iteration index sdepth st buffer fd = Continue st' fd' \<Longrightarrow> store_ok (lock_data st) \<Longrightarrow>
   store_ok (lock_data st')"
  by (auto simp: iteration_def store_ok_add_the_entry
           split: if_splits sum.splits list.splits option.splits)

lemma loop_tops_store_ok:
  "(st', fd') \<in> set (loop_tops index sdepth st fd) \<Longrightarrow> store_ok (lock_data st) \<Longrightarrow>
   store_ok (lock_data st')"
proof (induction index sdepth st fd rule: loop_tops.induct)
  case (1 index sdepth st fd)
  from "1.prems"(1) consider "(st', fd') = (st, fd)"
    | b r st1 fd1 where "fd = b # r" "iteration index sdepth st b r = Continue st1 fd1"
        "(st', fd') \<in> set (loop_tops index sdepth st1 fd1)"
    using loop_tops_mem [of st' fd' index sdepth st fd] by blast
  then show ?case
  proof cases
    case 1
    then show ?thesis using "1.prems"(2) by simp
  next
    case 2
    have "store_ok (lock_data st1)"
      using iteration_store_ok [OF 2(2) "1.prems"(2)] .
    then show ?thesis using "1.IH" [OF 2(1) 2(2) 2(3)] by simp
  qed
qed

lemma read_data_store_ok:
  assumes "read_data index sdepth st fd = Inr (st', fd')" and "store_ok (lock_data st)"
  shows "store_ok (lock_data st')"
proof -
  obtain es r where
    "section_entries sdepth (func_called st) (stack_in st) (depth st) (have_function st) fd = (es, r)"
    by (meson surj_pair)
  then have "lock_data st' = add_all (map (Pair index) es) (lock_data st)"
    using read_data_entries [OF assms(1)] by simp
  then show ?thesis using store_ok_add_all [OF assms(2)] by simp
qed

lemma parser_tops_store_ok:
  "(i, st, s) \<in> set (parser_tops secs sdepth ld fd) \<Longrightarrow> store_ok ld \<Longrightarrow>
   store_ok (lock_data st)"
proof (induction secs sdepth ld fd rule: parser_tops.induct)
  case (1 sdepth ld fd)
  then show ?case by simp
next
  case (2 skip index later sdepth ld fd)
  from "2.prems"(1) consider
      "(st, s) \<in> set (loop_tops index sdepth (fresh_locals ld) (drop skip fd))"
    | st' fd' where "read_data index sdepth (fresh_locals ld) (drop skip fd) = Inr (st', fd')"
        "(i, st, s) \<in> set (parser_tops later sdepth (lock_data st') fd')"
    using parser_tops_mem [of i st s skip index later sdepth ld fd] by blast
  then show ?case
  proof cases
    case 1
    then show ?thesis
      using loop_tops_store_ok [of st s index sdepth "fresh_locals ld" "drop skip fd"] "2.prems"(2)
      by (simp add: fresh_locals_def)
  next
    case 2
    have "store_ok (lock_data st')"
      using read_data_store_ok [OF 2(1)] "2.prems"(2) by (simp add: fresh_locals_def)
    then show ?thesis using "2.IH" [OF 2(1) refl 2(2)] by simp
  qed
qed

subsection \<open>What atoll computes\<close>

lemma digit_char:
  assumes "k < 10"
  shows "isdigit (char_of (48 + k))" and "(of_char (char_of (48 + k)) :: int) = 48 + int k"
proof -
  have n: "(of_char (char_of (48 + k)) :: nat) = 48 + k"
    using assms by simp
  then show "isdigit (char_of (48 + k))"
    using assms by (simp add: isdigit_def)
  have "(of_char (char_of (48 + k)) :: int) = int (of_char (char_of (48 + k)))"
    by (simp only: of_nat_of_char)
  then show "(of_char (char_of (48 + k)) :: int) = 48 + int k"
    using n by simp
qed

lemma digits_value_decimal:
  "digits_value 0 (decimal n @ t) = digits_value (int n) t"
proof (induction n arbitrary: t rule: decimal.induct)
  case (1 n)
  show ?case
  proof (cases "n < 10")
    case True
    then show ?thesis
      by (subst decimal.simps) (simp add: digit_char)
  next
    case False
    have m: "n mod 10 < 10" by simp
    have "digits_value 0 (decimal n @ t) =
          digits_value 0 (decimal (n div 10) @ char_of (48 + n mod 10) # t)"
      using False by (subst decimal.simps) simp
    also have "\<dots> = digits_value (int (n div 10)) (char_of (48 + n mod 10) # t)"
      using "1.IH" [OF False] .
    also have "\<dots> = digits_value (10 * int (n div 10) + int (n mod 10)) t"
      using digit_char [OF m] by simp
    also have "10 * int (n div 10) + int (n mod 10) = int n"
      by (simp add: zdiv_int zmod_int)
    finally show ?thesis .
  qed
qed

lemma digits_value_stop: "\<not> first_digit t \<Longrightarrow> digits_value a t = a"
  by (cases t) (auto simp: first_digit_def)

lemma decimal_first: "\<exists>c r. decimal n = c # r \<and> isdigit c"
proof (induction n rule: decimal.induct)
  case (1 n)
  show ?case
  proof (cases "n < 10")
    case True
    then show ?thesis by (subst decimal.simps) (simp add: digit_char)
  next
    case False
    then obtain c r where "decimal (n div 10) = c # r" "isdigit c"
      using "1.IH" by blast
    then show ?thesis using False by (subst decimal.simps) simp
  qed
qed

lemma isdigit_not_space: "isdigit c \<Longrightarrow> \<not> isspace c \<and> c \<noteq> CHR ''-'' \<and> c \<noteq> CHR ''+''"
  by (auto simp: isdigit_def isspace_def)

lemma dropWhile_spaces:
  "list_all isspace ws \<Longrightarrow> \<not> isspace c \<Longrightarrow> dropWhile isspace (ws @ c # r) = c # r"
  by (induction ws) auto

lemma sign_not_space: "\<not> isspace (CHR ''-'')" "\<not> isspace (CHR ''+'')"
  by (simp_all add: isspace_def)

lemma digits_value_zeros:
  "digits_value 0 (replicate k (CHR ''0'') @ s) = digits_value 0 s"
  by (induction k) (simp_all add: isdigit_def)

lemma zeros_decimal_first: "\<exists>c r. replicate k (CHR ''0'') @ decimal n = c # r \<and> isdigit c"
proof (cases k)
  case 0
  then show ?thesis using decimal_first by simp
next
  case (Suc m)
  then show ?thesis by (simp add: isdigit_def)
qed

text \<open>Every run of digits is some zeros followed by the decimal digits of a number. After
  white space and an optional sign, \<^verbatim>\<open>atoll\<close> gives that number, whatever follows the run.\<close>

lemma atoll_decimal:
  assumes "list_all isspace ws" and "\<not> first_digit t"
  shows "atoll (ws @ replicate k (CHR ''0'') @ decimal n @ t) = int n"
    and "atoll (ws @ CHR ''-'' # replicate k (CHR ''0'') @ decimal n @ t) = - int n"
    and "atoll (ws @ CHR ''+'' # replicate k (CHR ''0'') @ decimal n @ t) = int n"
proof -
  let ?ds = "replicate k (CHR ''0'') @ decimal n"
  obtain c r where d: "?ds = c # r" and c: "isdigit c"
    using zeros_decimal_first by blast
  have v: "digits_value 0 (?ds @ t) = int n"
    using digits_value_zeros [of k "decimal n @ t"] digits_value_decimal [of n t]
      digits_value_stop [OF assms(2)] by simp
  have "dropWhile isspace (ws @ ?ds @ t) = ?ds @ t"
    using dropWhile_spaces [OF assms(1), of c "r @ t"] isdigit_not_space [OF c] d by simp
  then have "atoll (ws @ ?ds @ t) = int n"
    using v d isdigit_not_space [OF c] by (simp add: atoll_def)
  then show "atoll (ws @ replicate k (CHR ''0'') @ decimal n @ t) = int n"
    by simp
  have "dropWhile isspace (ws @ CHR ''-'' # ?ds @ t) = CHR ''-'' # ?ds @ t"
    using dropWhile_spaces [OF assms(1)] sign_not_space by simp
  then have "atoll (ws @ CHR ''-'' # ?ds @ t) = - int n"
    using v by (simp add: atoll_def)
  then show "atoll (ws @ CHR ''-'' # replicate k (CHR ''0'') @ decimal n @ t) = - int n"
    by simp
  have "dropWhile isspace (ws @ CHR ''+'' # ?ds @ t) = CHR ''+'' # ?ds @ t"
    using dropWhile_spaces [OF assms(1)] sign_not_space by simp
  then have "atoll (ws @ CHR ''+'' # ?ds @ t) = int n"
    using v by (simp add: atoll_def)
  then show "atoll (ws @ CHR ''+'' # replicate k (CHR ''0'') @ decimal n @ t) = int n"
    by simp
qed

lemma atoll_no_number:
  assumes "no_number s"
  shows "atoll s = 0"
proof (cases "dropWhile isspace s")
  case Nil
  show ?thesis unfolding atoll_def Nil by simp
next
  case (Cons c r)
  show ?thesis
  proof (cases "c = CHR ''-'' \<or> c = CHR ''+''")
    case True
    with assms have "case r of [] \<Rightarrow> True | d # _ \<Rightarrow> \<not> isdigit d"
      unfolding no_number_def Cons by simp
    then have "digits_value 0 r = 0" by (cases r) auto
    with True show ?thesis unfolding atoll_def Cons by auto
  next
    case False
    with assms have "\<not> isdigit c"
      unfolding no_number_def Cons by simp
    with False show ?thesis unfolding atoll_def Cons by simp
  qed
qed

subsection \<open>Malformed lines\<close>





text \<open>A line that starts with \<open>=\<close> or \<open>@\<close> or contains \<open>[]\<close> ends the loop or is passed over,
  whether it has its newline or not.\<close>

lemma untested_line_passes:
  "\<not> data_line buffer \<Longrightarrow>
   iteration index sdepth st buffer fd =
     (if first_is buffer (CHR ''='') then Break
      else Continue (if strstr_brackets buffer then st else st\<lparr>have_function := False\<rparr>) fd)"
  unfolding iteration_def data_line_def
  by (cases "first_is buffer (CHR ''='')"; cases "strstr_brackets buffer"; simp)






subsection \<open>Terminator values\<close>

lemma iteration_terminator:
  "data_line buffer \<Longrightarrow> remove_new_line buffer = Inr line \<Longrightarrow> have_function st \<Longrightarrow>
   first_is line (CHR '']'') \<Longrightarrow> strchr line (CHR '':'') = Some i \<Longrightarrow>
   iteration index sdepth st buffer fd =
     Continue
       (st\<lparr>depth := 0,
           lock_data := add_the_entry index (stack_in st) (func_called st)
                          (atoll (drop (Suc i) line)) (lock_data st)\<rparr>) fd"
  by (simp add: iteration_def data_line_def)

text \<open>
  C10, amended. In every run, when the loop of the parser, with a stack open, is about to
  read a line that has its newline, starts with \<open>]\<close>, has a colon and does not contain the
  two characters \<open>[]\<close> (a line that contains them is skipped before anything else is
  looked at), the parser does not stop: it is next at the line after it, the store is the
  one before with the entry added whose value is \<^verbatim>\<open>atoll\<close> of the text after the first
  colon, the signature of the open stack has a record, and the metric field of the section
  of that signature is the one before plus that value, all other fields being as before.
  \<^verbatim>\<open>atoll\<close> skips white space, reads an optional sign and gives the number written by
  the digits that follow, whatever comes after them; text with no digit there gives 0, so
  that the entry is added with 0 and nothing is reported as malformed.
\<close>

theorem terminator_value_is_atoll:
  assumes "(index, st, buffer # rest) \<in> set (parser_tops sections sdepth [] fd)"
    and "data_line buffer" and "remove_new_line buffer = Inr line" and "have_function st"
    and "first_is line (CHR '']'')" and "strchr line (CHR '':'') = Some i"
  shows "(\<exists>st'. (index, st', rest) \<in> set (parser_tops sections sdepth [] fd)
            \<and> read_data index sdepth st (buffer # rest) = read_data index sdepth st' rest
            \<and> lock_data st' =
                add_the_entry index (stack_in st) (func_called st)
                  (atoll (drop (Suc i) line)) (lock_data st)
            \<and> stack_in st \<in> stack ` set (lock_data st')
            \<and> (\<forall>s j. j < 8 \<longrightarrow>
                  metric (lock_data st') s j =
                    metric (lock_data st) s j
                      + (if s = stack_in st \<and> j = index then atoll (drop (Suc i) line) else 0)))
         \<and> (list_all isspace ws \<and> \<not> first_digit t \<longrightarrow>
              atoll (ws @ replicate k (CHR ''0'') @ decimal n @ t) = int n
              \<and> atoll (ws @ CHR ''-'' # replicate k (CHR ''0'') @ decimal n @ t) = - int n
              \<and> atoll (ws @ CHR ''+'' # replicate k (CHR ''0'') @ decimal n @ t) = int n)
         \<and> (no_number u \<longrightarrow> atoll u = 0)"
proof -
  let ?v = "atoll (drop (Suc i) line)"
  let ?ld = "add_the_entry index (stack_in st) (func_called st) ?v (lock_data st)"
  let ?st = "st\<lparr>depth := 0, lock_data := ?ld\<rparr>"
  have it: "iteration index sdepth st buffer rest = Continue ?st rest"
    using assms(2-6) by (rule iteration_terminator)
  have top: "(index, ?st, rest) \<in> set (parser_tops sections sdepth [] fd)"
    using assms(1) it by (rule parser_tops_step)
  have rd: "read_data index sdepth st (buffer # rest) = read_data index sdepth ?st rest"
    unfolding read_data_pass by (simp add: it)
  have ok: "store_ok (lock_data st)"
    using assms(1) store_ok_Nil by (rule parser_tops_store_ok)
  have ix: "index < 8"
    using parser_tops_index [OF assms(1)] by (rule sections_index)
  have in_store: "stack_in st \<in> stack ` set (lock_data ?st)"
    by (simp add: stacks_add_the_entry)
  have field: "\<forall>s j. j < 8 \<longrightarrow>
      metric (lock_data ?st) s j =
        metric (lock_data st) s j + (if s = stack_in st \<and> j = index then ?v else 0)"
    using metric_add_the_entry [OF ok ix] by simp
  have first: "\<exists>st'. (index, st', rest) \<in> set (parser_tops sections sdepth [] fd)
            \<and> read_data index sdepth st (buffer # rest) = read_data index sdepth st' rest
            \<and> lock_data st' = ?ld
            \<and> stack_in st \<in> stack ` set (lock_data st')
            \<and> (\<forall>s j. j < 8 \<longrightarrow>
                  metric (lock_data st') s j =
                    metric (lock_data st) s j
                      + (if s = stack_in st \<and> j = index then ?v else 0))"
    using top rd in_store field by (intro exI [of _ ?st]) simp
  have num: "list_all isspace ws \<and> \<not> first_digit t \<longrightarrow>
              atoll (ws @ replicate k (CHR ''0'') @ decimal n @ t) = int n
              \<and> atoll (ws @ CHR ''-'' # replicate k (CHR ''0'') @ decimal n @ t) = - int n
              \<and> atoll (ws @ CHR ''+'' # replicate k (CHR ''0'') @ decimal n @ t) = int n"
    using atoll_decimal [of ws t k n] by blast
  have none: "no_number u \<longrightarrow> atoll u = 0"
    using atoll_no_number by blast
  from first num none show ?thesis by blast
qed

text \<open>
  In the example file the loop comes to the terminator \<open>]: 100\<close> of the first entry with
  an empty store: afterwards the record of the stack has 100 in the field of the section.
  The text \<open>abc\<close> has no number and gives 0.
\<close>

theorem terminator_value_is_atoll_witness:
  "(ACQ_DATA_HOLD_AVG, example_state_foo, '']: 100\<newline>'' # drop 8 example_file)
      \<in> set (parser_tops sections 1 [] example_file)
   \<and> data_line '']: 100\<newline>'' \<and> remove_new_line '']: 100\<newline>'' = Inr '']: 100 ''
   \<and> have_function example_state_foo \<and> first_is '']: 100 '' (CHR '']'')
   \<and> strchr '']: 100 '' (CHR '':'') = Some 1
   \<and> drop (Suc 1) '']: 100 '' = '' '' @ replicate 0 (CHR ''0'') @ decimal 100 @ '' ''
   \<and> list_all isspace '' '' \<and> \<not> first_digit '' ''
   \<and> atoll (drop (Suc 1) '']: 100 '') = 100
   \<and> no_number '' abc '' \<and> atoll '' abc '' = 0
   \<and> (\<exists>st'. (ACQ_DATA_HOLD_AVG, st', drop 8 example_file)
                \<in> set (parser_tops sections 1 [] example_file)
          \<and> stack_in example_state_foo \<in> stack ` set (lock_data st')
          \<and> metric (lock_data st') (stack_in example_state_foo) ACQ_DATA_HOLD_AVG = 100)"
proof -
  have a: "(ACQ_DATA_HOLD_AVG, example_state_foo, '']: 100\<newline>'' # drop 8 example_file)
      \<in> set (parser_tops sections 1 [] example_file)"
    by code_simp
  have b: "data_line '']: 100\<newline>''" by code_simp
  have c: "remove_new_line '']: 100\<newline>'' = Inr '']: 100 ''" by code_simp
  have d: "have_function example_state_foo" by code_simp
  have e: "first_is '']: 100 '' (CHR '']'')" by code_simp
  have f: "strchr '']: 100 '' (CHR '':'') = Some 1" by code_simp
  have g: "drop (Suc 1) '']: 100 '' = '' '' @ replicate 0 (CHR ''0'') @ decimal 100 @ '' ''"
    by code_simp
  have h: "list_all isspace '' '' \<and> \<not> first_digit '' ''" by code_simp
  have n: "no_number '' abc ''" by code_simp
  have j: "ACQ_DATA_HOLD_AVG < 8" by (simp add: ACQ_DATA_HOLD_AVG_def)
  have m0: "metric (lock_data example_state_foo) (stack_in example_state_foo) ACQ_DATA_HOLD_AVG = 0"
    by code_simp
  note t = terminator_value_is_atoll [OF a b c d e f,
      where ws = "'' ''" and t = "'' ''" and k = 0 and n = 100 and u = "'' abc ''"]
  from t h have v: "atoll ('' '' @ replicate 0 (CHR ''0'') @ decimal 100 @ '' '') = 100"
    by simp
  then have v': "atoll (drop (Suc 1) '']: 100 '') = 100"
    unfolding g .
  from t n have z: "atoll '' abc '' = 0"
    by blast
  from t obtain st' where
    1: "(ACQ_DATA_HOLD_AVG, st', drop 8 example_file)
          \<in> set (parser_tops sections 1 [] example_file)"
    and 2: "stack_in example_state_foo \<in> stack ` set (lock_data st')"
    and 3: "\<forall>s j. j < 8 \<longrightarrow>
              metric (lock_data st') s j =
                metric (lock_data example_state_foo) s j
                  + (if s = stack_in example_state_foo \<and> j = ACQ_DATA_HOLD_AVG
                     then atoll (drop (Suc 1) '']: 100 '') else 0)"
    by blast
  from 3 j have "metric (lock_data st') (stack_in example_state_foo) ACQ_DATA_HOLD_AVG =
      metric (lock_data example_state_foo) (stack_in example_state_foo) ACQ_DATA_HOLD_AVG
        + atoll (drop (Suc 1) '']: 100 '')"
    by simp
  then have 4: "metric (lock_data st') (stack_in example_state_foo) ACQ_DATA_HOLD_AVG = 100"
    unfolding m0 v' by simp
  from 1 2 4 have ex: "\<exists>st'. (ACQ_DATA_HOLD_AVG, st', drop 8 example_file)
                \<in> set (parser_tops sections 1 [] example_file)
          \<and> stack_in example_state_foo \<in> stack ` set (lock_data st')
          \<and> metric (lock_data st') (stack_in example_state_foo) ACQ_DATA_HOLD_AVG = 100"
    by blast
  from a b c d e f g h v' n z ex show ?thesis by blast
qed

text \<open>
  C10 as stated fails. The line \<open>]: 7 x[]\<close> is read with a stack open, starts with \<open>]\<close> and
  has the colon, and \<^verbatim>\<open>atoll\<close> of the text after the colon is 7; but the line contains
  \<open>[]\<close>, so the loop skips it: nothing is converted and no entry is added. The state is
  unchanged at the end of the section, and a whole file whose only stack ends with this
  line leaves the store empty.
\<close>

theorem terminator_with_brackets_skipped_counterexample:
  "have_function example_state \<and> lock_data example_state = []
   \<and> first_is '']: 7 x[]\<newline>'' (CHR '']'') \<and> CHR 0x0A \<in> set '']: 7 x[]\<newline>''
   \<and> strchr '']: 7 x[]\<newline>'' (CHR '':'') = Some 1
   \<and> atoll (drop (Suc 1) '']: 7 x[]\<newline>'') = 7
   \<and> read_data HD_DATA_HOLD_COUNT 1 example_state ['']: 7 x[]\<newline>'', ''====\<newline>'']
       = Inr (example_state, [])
   \<and> lookup_data (Some example_skipped_file) 1 = Inr []"
  by code_simp

section \<open>The stores the program builds have closed frames\<close>

lemma colon_at_last_space_closed:
  "colon_at_last_space x = Inr fn \<Longrightarrow> fn \<noteq> [] \<and> last fn = CHR '':''"
  by (auto simp: colon_at_last_space_def split: option.splits)

lemma colon_closed: "colon_at_last_space x = Inr fn \<Longrightarrow> frames_closed (pre @ fn)"
  using colon_at_last_space_closed [of x fn] by (simp add: frames_closed_def)

lemma section_entries_closed:
  "(hf \<longrightarrow> frames_closed fc) \<Longrightarrow>
   (s, f, v) \<in> set (fst (section_entries sdepth fc si d hf fd)) \<Longrightarrow> frames_closed f"
proof (induction sdepth fc si d hf fd rule: section_entries.induct)
  case (1 sdepth fc si d hf)
  then show ?case by simp
next
  case (2 sdepth fc si d hf buffer fd)
  show ?case
  proof (cases "first_is buffer (CHR ''='')")
    case True
    with "2.prems" show ?thesis by simp
  next
    case eq: False
    show ?thesis
    proof (cases "strstr_brackets buffer")
      case True
      with eq "2.prems" "2.IH"(1) show ?thesis by simp
    next
      case br: False
      show ?thesis
      proof (cases "first_is buffer (CHR ''@'')")
        case True
        with eq br "2.prems" "2.IH"(2) show ?thesis by simp
      next
        case at: False
        show ?thesis
        proof (cases "remove_new_line buffer")
          case (Inl err)
          with eq br at "2.prems" show ?thesis by simp
        next
          case (Inr line)
          note IH = "2.IH"(3-6) [OF eq br at Inr]
          show ?thesis
          proof (cases hf)
            case False
            with eq br at Inr "2.prems"(2) obtain b2 fd2 l2 fn where
              fd: "fd = b2 # fd2" and l2: "remove_new_line b2 = Inr l2"
              and fn: "colon_at_last_space l2 = Inr fn"
              and m: "(s, f, v) \<in> set (fst (section_entries sdepth fn (line @ fn) 1 True fd2))"
              by (auto split: list.splits sum.splits)
            have "True \<longrightarrow> frames_closed fn"
              using colon_closed [OF fn, of "[]"] by simp
            then show ?thesis using IH(1) [OF False fd l2 fn _ m] by simp
          next
            case hf: True
            show ?thesis
            proof (cases "first_is line (CHR '']'')")
              case True
              with eq br at Inr hf "2.prems" IH(2) show ?thesis
                by (auto split: option.splits prod.splits)
            next
              case trm: False
              show ?thesis
              proof (cases "d < sdepth")
                case True
                with eq br at Inr hf trm "2.prems"(2) obtain fn where
                  fn: "colon_at_last_space line = Inr fn"
                  and m: "(s, f, v) \<in> set (fst (section_entries sdepth (fc @ fn) (si @ line)
                                                 (d + 1) hf fd))"
                  by (auto split: sum.splits)
                have "hf \<longrightarrow> frames_closed (fc @ fn)"
                  using colon_closed [OF fn] by simp
                then show ?thesis using IH(3) [OF _ trm True fn _ m] hf by simp
              next
                case False
                with eq br at Inr hf trm "2.prems" IH(4) show ?thesis
                  by auto
              qed
            qed
          qed
        qed
      qed
    qed
  qed
qed

lemma file_entries_closed:
  "(i, s, f, v) \<in> set (file_entries secs sdepth fd) \<Longrightarrow> frames_closed f"
proof (induction secs sdepth fd rule: file_entries.induct)
  case (1 sdepth fd)
  then show ?case by simp
next
  case (2 skip index later sdepth fd)
  obtain es fd' where se: "section_entries sdepth [] [] 0 False (drop skip fd) = (es, fd')"
    by (meson surj_pair)
  from "2.prems" se consider "(s, f, v) \<in> set es" | "(i, s, f, v) \<in> set (file_entries later sdepth fd')"
    by auto
  then show ?case
  proof cases
    case a: 1
    then show ?thesis
      using section_entries_closed [of False "[]" s f v sdepth "[]" 0 "drop skip fd"] se by simp
  next
    case b: 2
    then show ?thesis using "2.IH" [OF se [symmetric]] by simp
  qed
qed

lemma called_from_add_the_entry:
  "called_from ` set (add_the_entry index s f v ld) \<subseteq> insert f (called_from ` set ld)"
proof (cases "bsearch locate_stack s ld")
  case None
  then show ?thesis by (auto simp: add_the_entry_new set_qsort)
next
  case (Some i)
  then have i: "i < length ld" using bsearch_stack_Some by auto
  let ?e = "(ld ! i)\<lparr>data := (data (ld ! i))[index := data (ld ! i) ! index + v]\<rparr>"
  have "set (ld[i := ?e]) \<subseteq> insert ?e (set ld)" by (rule set_update_subset_insert)
  moreover have "called_from ?e \<in> called_from ` set ld" using i by (simp add: image_iff) (metis nth_mem)
  ultimately show ?thesis unfolding add_the_entry_old [OF Some] by auto
qed

lemma called_from_add_all:
  "called_from ` set (add_all es ld) \<subseteq> called_from ` set ld \<union> (\<lambda>e. fst (snd (snd e))) ` set es"
proof (induction es arbitrary: ld)
  case Nil
  then show ?case by simp
next
  case (Cons e es)
  obtain i s f v where e: "e = (i, s, f, v)" by (cases e) auto
  have "called_from ` set (add_all (e # es) ld)
          \<subseteq> called_from ` set (add_the_entry i s f v ld) \<union> (\<lambda>e. fst (snd (snd e))) ` set es"
    using Cons.IH [of "add_the_entry i s f v ld"] e by simp
  also have "\<dots> \<subseteq> insert f (called_from ` set ld) \<union> (\<lambda>e. fst (snd (snd e))) ` set es"
    using called_from_add_the_entry [of i s f v ld] by auto
  finally show ?case using e by auto
qed

lemma lookup_data_closed:
  assumes "lookup_data (Some fd) sdepth = Inr ld" and "e \<in> set ld"
  shows "frames_closed (called_from e)"
proof -
  have "ld = add_all (file_entries sections sdepth fd) []"
    using assms(1) by (rule lookup_data_entries)
  then have "called_from e \<in> (\<lambda>e. fst (snd (snd e))) ` set (file_entries sections sdepth fd)"
    using called_from_add_all [of "file_entries sections sdepth fd" "[]"] assms(2) by auto
  then obtain i s f v where "(i, s, f, v) \<in> set (file_entries sections sdepth fd)"
    and "called_from e = f"
    by (metis (no_types, lifting) fst_conv imageE prod.collapse snd_conv)
  then show ?thesis using file_entries_closed by simp
qed

lemma organize_step_called_from:
  assumes "organize_step count wptr cs = Inr cs'"
  shows "called_from ` set (cons_data cs')
           \<subseteq> insert (called_from wptr) (called_from ` set (cons_data cs))"
proof -
  obtain cs1 entry_add where p:
    "(if count = 0
      then (cs\<lparr>cons_data := [new_cons_entry (called_from wptr)]\<rparr>, 0)
      else (case bsearch locate_caller (called_from wptr)
                   (take (number_cons_entries cs) (cons_data cs)) of
              Some i \<Rightarrow> (cs, i)
            | None \<Rightarrow>
                (\<lparr>cons_data = take (number_cons_entries cs) (cons_data cs) @
                               [new_cons_entry (called_from wptr)],
                  number_cons_entries = number_cons_entries cs + 1\<rparr>,
                 number_cons_entries cs))) = (cs1, entry_add)"
    by (meson surj_pair)
  have "set (cons_data cs1) \<subseteq> insert (new_cons_entry (called_from wptr)) (set (cons_data cs))"
    using p set_take_subset [of "number_cons_entries cs" "cons_data cs"]
    by (auto split: if_splits option.splits)
  then have c1: "called_from ` set (cons_data cs1)
              \<subseteq> insert (called_from wptr) (called_from ` set (cons_data cs))"
    by (auto simp: new_cons_entry_def)
  obtain d where d: "add_things_up (data (cons_data cs1 ! entry_add)) (data wptr) = Inr d"
    using add_things_up_Inr by blast
  let ?e = "(cons_data cs1 ! entry_add)\<lparr>data := d\<rparr>"
  have cs': "cons_data cs' = (cons_data cs1)[entry_add := ?e]"
    using assms unfolding organize_step_def Let_def p by (auto simp: d)
  have "called_from ` set ((cons_data cs1)[entry_add := ?e]) \<subseteq> called_from ` set (cons_data cs1)"
  proof (cases "entry_add < length (cons_data cs1)")
    case True
    then have "called_from ?e \<in> called_from ` set (cons_data cs1)"
      by (simp add: image_iff) (metis nth_mem)
    moreover have "set ((cons_data cs1)[entry_add := ?e]) \<subseteq> insert ?e (set (cons_data cs1))"
      by (rule set_update_subset_insert)
    ultimately show ?thesis by auto
  next
    case False
    then have "(cons_data cs1)[entry_add := ?e] = cons_data cs1"
      by (simp add: list_update_beyond)
    then show ?thesis by simp
  qed
  with c1 cs' show ?thesis by auto
qed

lemma organize_loop_called_from:
  "organize_loop count ws cs = Inr cs' \<Longrightarrow>
   called_from ` set (cons_data cs') \<subseteq> called_from ` set ws \<union> called_from ` set (cons_data cs)"
proof (induction ws arbitrary: count cs)
  case Nil
  then show ?case by simp
next
  case (Cons w ws)
  from Cons.prems obtain cs1 where s: "organize_step count w cs = Inr cs1"
    and l: "organize_loop (Suc count) ws cs1 = Inr cs'"
    by (auto split: sum.splits)
  from Cons.IH [OF l] organize_step_called_from [OF s] show ?case by auto
qed

text \<open>Every consolidated record of a run has a called-from key with closed frames: the
  hypothesis of the property of \<^verbatim>\<open>dump_data\<close> below holds in every run.\<close>

lemma pipeline_frames_closed:
  assumes "lookup_data (Some fd) sdepth = Inr ld" and "organize_data ld = Inr cs"
  shows "list_all (\<lambda>e. frames_closed (called_from e)) (consolidated cs)"
proof -
  have "called_from ` set (cons_data cs) \<subseteq> called_from ` set ld"
    using organize_loop_called_from [OF assms(2) [unfolded organize_data_def]]
    by (simp add: set_qsort no_cons_def)
  then have "\<forall>e \<in> set (cons_data cs). frames_closed (called_from e)"
    using lookup_data_closed [OF assms(1)] by (metis imageE imageI subsetD)
  then show ?thesis
    unfolding consolidated_def list_all_iff by (auto dest: in_set_takeD)
qed

section \<open>Properties of dump\_data\<close>

lemma frame_lines_closed:
  "s = [] \<or> last s = CHR '':'' \<Longrightarrow> frame_lines s \<noteq> None"
proof (induction s rule: frame_lines.induct)
  case (1 ptr)
  show ?case
  proof (cases "ptr = []")
    case True
    then show ?thesis by (simp add: frame_lines.simps)
  next
    case False
    with "1.prems" have l: "last ptr = CHR '':''" by simp
    with False have "CHR '':'' \<in> set ptr" using last_in_set by metis
    then obtain i where i: "strchr ptr (CHR '':'') = Some i"
      by (simp add: strchr_def)
    have "i < length ptr" using strchr_Some [OF i] by simp
    then have "drop (Suc i) ptr = [] \<or> last (drop (Suc i) ptr) = CHR '':''"
      using l by (cases "Suc i < length ptr") (simp_all add: last_drop)
    then have "frame_lines (drop (Suc i) ptr) \<noteq> None"
      using "1.IH" [OF False i] by simp
    then show ?thesis
      using False i by (subst frame_lines.simps) auto
  qed
qed

lemma other_frames_closed:
  assumes "frames_closed cf"
  shows "other_frames cf \<noteq> None"
proof (cases "strchr cf (CHR '':'')")
  case None
  then show ?thesis by (simp add: other_frames_def)
next
  case (Some i)
  have i: "i < length cf" using strchr_Some [OF Some] by simp
  have "CHR '':'' \<in> set cf" using Some by (auto simp: strchr_def split: if_splits)
  then have l: "last cf = CHR '':''" using assms by (simp add: frames_closed_def)
  have "drop (Suc i) cf = [] \<or> last (drop (Suc i) cf) = CHR '':''"
    using l i by (cases "Suc i < length cf") (simp_all add: last_drop)
  then show ?thesis
    using Some frame_lines_closed by (simp add: other_frames_def)
qed

lemma dump_rows_closed:
  "list_all (\<lambda>e. frames_closed (called_from e)) es \<Longrightarrow>
   dump_rows flt es = Inr (map row_of (filter (kept flt) es))"
proof (induction es)
  case Nil
  then show ?case by simp
next
  case (Cons e es)
  then have ih: "dump_rows flt es = Inr (map row_of (filter (kept flt) es))" by simp
  from Cons.prems obtain fs where fs: "other_frames (called_from e) = Some fs"
    using other_frames_closed [of "called_from e"] by auto
  show ?case
  proof (cases "kept flt e")
    case True
    then have "\<not> (flt \<noteq> None \<and> strcmp (filter_name (first_frame (called_from e))) (the flt) \<noteq> 0)"
      by (auto simp: kept_def split: option.splits)
    then show ?thesis using True ih fs by (simp add: row_of_def)
  next
    case False
    then have "flt \<noteq> None \<and> strcmp (filter_name (first_frame (called_from e))) (the flt) \<noteq> 0"
      by (auto simp: kept_def split: option.splits)
    then show ?thesis using False ih by simp
  qed
qed

lemma called_from_set_totals: "called_from (set_totals e) = called_from e"
  by (simp add: set_totals_def)

lemma sorted_store_closed:
  "list_all (\<lambda>e. frames_closed (called_from e)) (consolidated cs) \<Longrightarrow>
   list_all (\<lambda>e. frames_closed (called_from e)) (sorted_store so cs)"
  by (auto simp: list_all_iff sorted_store_def set_qsort consolidated_def called_from_set_totals)

lemma length_sorted_store:
  "length (sorted_store so cs) \<le> number_cons_entries cs"
  by (simp add: sorted_store_def length_qsort)

lemma take_rows_to_show:
  "0 \<le> n \<Longrightarrow> length xs \<le> m \<Longrightarrow> take (rows_to_show n m) xs = take (nat n) xs"
  by (auto simp: rows_to_show_def)

text \<open>
  C5, amended. For every consolidated store whose called-from keys have each frame closed
  by its colon, every caller filter and every row limit that is not negative, the rendered
  data rows are exactly the records that pass the filter among the first
  min(max\_rows, number of records) records of the sorted sequence: the row limit is
  applied before the filter, so a record that fails the filter still counts toward it. The
  row count never exceeds max\_rows, and never exceeds the number of records that pass the
  filter.
\<close>

theorem rows_are_filtered_prefix:
  assumes "0 \<le> numb_to_show"
    and "list_all (\<lambda>e. frames_closed (called_from e)) (consolidated cs)"
  shows "dump_data flt sort_option numb_to_show cs =
           Inr (map row_of
                 (filter (kept flt) (take (nat numb_to_show) (sorted_store sort_option cs))))
         \<and> length (filter (kept flt) (take (nat numb_to_show) (sorted_store sort_option cs)))
             \<le> nat numb_to_show
         \<and> length (filter (kept flt) (take (nat numb_to_show) (sorted_store sort_option cs)))
             \<le> length (filter (kept flt) (sorted_store sort_option cs))"
proof -
  let ?s = "sorted_store sort_option cs"
  have t: "take (rows_to_show numb_to_show (number_cons_entries cs)) ?s = take (nat numb_to_show) ?s"
    using assms(1) length_sorted_store by (rule take_rows_to_show)
  have "list_all (\<lambda>e. frames_closed (called_from e)) (take (nat numb_to_show) ?s)"
    using sorted_store_closed [OF assms(2), of sort_option]
    by (auto simp: list_all_iff dest: in_set_takeD)
  then have a: "dump_data flt sort_option numb_to_show cs =
           Inr (map row_of (filter (kept flt) (take (nat numb_to_show) ?s)))"
    unfolding dump_data_def t by (rule dump_rows_closed)
  have b: "length (filter (kept flt) (take (nat numb_to_show) ?s)) \<le> nat numb_to_show"
    by (rule order_trans [OF length_filter_le]) simp
  have "filter (kept flt) ?s =
        filter (kept flt) (take (nat numb_to_show) ?s)
          @ filter (kept flt) (drop (nat numb_to_show) ?s)"
    by (metis append_take_drop_id filter_append)
  then have c: "length (filter (kept flt) (take (nat numb_to_show) ?s))
                  \<le> length (filter (kept flt) ?s)"
    by (metis le_add1 length_append)
  from a b c show ?thesis by blast
qed

text \<open>On the example store, sorted by total acquisition time, with the filter \<open>rare+2\<close> and
  a limit of two rows: the one row of \<open>rare+2\<close>.\<close>

theorem rows_are_filtered_prefix_witness:
  "(0::int) \<le> 2
   \<and> list_all (\<lambda>e. frames_closed (called_from e)) (consolidated example_store)
   \<and> dump_data (Some ''rare+2'') 7 2 example_store =
       Inr [\<lparr>row_caller = ''rare+2'', row_holds = 0, row_hold_max = 0, row_hold_avg = 0,
             row_acqs = 2, row_acq_max = 0, row_acq_avg = 50, row_frames = []\<rparr>]"
proof -
  have h1: "(0::int) \<le> 2" by simp
  have h2: "list_all (\<lambda>e. frames_closed (called_from e)) (consolidated example_store)"
    by code_simp
  have e: "map row_of
             (filter (kept (Some ''rare+2'')) (take (nat 2) (sorted_store 7 example_store)))
     = [\<lparr>row_caller = ''rare+2'', row_holds = 0, row_hold_max = 0, row_hold_avg = 0,
         row_acqs = 2, row_acq_max = 0, row_acq_avg = 50, row_frames = []\<rparr>]"
    by code_simp
  show ?thesis
    using rows_are_filtered_prefix [OF h1 h2, of "Some ''rare+2''" 7] h2 unfolding e by simp
qed

text \<open>
  C5 as stated fails. With the same store, sort option and filter but a limit of one row,
  the rows C5 describes (the first min(1, 1) records of the sorted and then filtered
  sequence)
  are the row of \<open>rare+2\<close>; the program first cuts the sorted sequence to its first record,
  \<open>slow+1\<close>, which the filter then drops, and prints no row.
\<close>

theorem row_limit_before_filter_counterexample:
  "dump_data (Some ''rare+2'') 7 1 example_store = Inr []
   \<and> map row_of
       (take (min (nat 1) (length (filter (kept (Some ''rare+2'')) (sorted_store 7 example_store))))
          (filter (kept (Some ''rare+2'')) (sorted_store 7 example_store)))
     = [\<lparr>row_caller = ''rare+2'', row_holds = 0, row_hold_max = 0, row_hold_avg = 0,
         row_acqs = 2, row_acq_max = 0, row_acq_avg = 50, row_frames = []\<rparr>]
   \<and> dump_data (Some ''rare+2'') 7 1 example_store \<noteq>
       Inr (map row_of
             (take (min (nat 1)
                      (length (filter (kept (Some ''rare+2'')) (sorted_store 7 example_store))))
                (filter (kept (Some ''rare+2'')) (sorted_store 7 example_store))))"
  by code_simp

text \<open>A negative row limit limits nothing: the comparison with the \<^verbatim>\<open>size_t\<close> count is
  false for it, and all rows are printed.\<close>

lemma negative_row_limit_shows_all:
  "map_sum id (map row_caller) (dump_data None 7 (- 1) example_store)
     = Inr [''slow+1'', ''rare+2'']"
  by code_simp

end
